theory Spec2Isabelle
  imports Complex_Main "HOL-Library.Monad_Syntax" "HOL-Library.Multiset"
    "HOL-Library.Signed_Division"
begin

section \<open>Data model\<close>

text \<open>
  A finite value of the Go type \<^verbatim>\<open>float64\<close> is a \<^typ>\<open>real\<close>: the coordinates, the
  query point and the radius are finite, and the code only compares and moves them. The
  results of \<^verbatim>\<open>float64\<close> arithmetic (the radius query subtracts, multiplies and adds) are
  values of the type \<open>float64\<close> below, rounded after every operation and possibly
  infinite. The Go type \<^verbatim>\<open>int\<close> is modelled by \<^typ>\<open>int\<close> (index arithmetic never
  comes near 64 bits), a slice by a list. A result of type \<open>'a option\<close> is \<open>None\<close> when
  the Go code panics with an index out of range. The functions that contain a loop or a
  recursion whose termination depends on the arguments return \<open>'a option option\<close>: the
  outer \<open>None\<close> is a call that never returns, \<open>Some None\<close> is a panic and
  \<open>Some (Some v)\<close> is the normal return of \<open>v\<close>. The interface \<^verbatim>\<open>Point\<close> is modelled by
  its implementation \<^verbatim>\<open>SimplePoint\<close>. A method that mutates its receiver returns the new
  value.
\<close>

record SimplePoint =
  X :: real
  Y :: real

definition Coordinates :: "SimplePoint \<Rightarrow> real \<times> real" where
  "Coordinates sp = (X sp, Y sp)"

record KDBush =
  NodeSize :: int
  Points :: "SimplePoint list"
  Idxs :: "int list"
  Coords :: "real list"

section \<open>Shared utilities\<close>

text \<open>Reading \<^verbatim>\<open>a[i]\<close>: Go panics when the index is out of range.\<close>

definition elem :: "'a list \<Rightarrow> int \<Rightarrow> 'a option" where
  "elem a i = (if 0 \<le> i \<and> i < int (length a) then Some (a ! nat i) else None)"

definition swapf :: "real list \<Rightarrow> int \<Rightarrow> int \<Rightarrow> real list option" where
  "swapf a i j = do {
     t \<leftarrow> elem a i;
     aj \<leftarrow> elem a j;
     Some ((a[nat i := aj])[nat j := t])
   }"

definition swapi :: "int list \<Rightarrow> int \<Rightarrow> int \<Rightarrow> int list option" where
  "swapi a i j = do {
     t \<leftarrow> elem a i;
     aj \<leftarrow> elem a j;
     Some ((a[nat i := aj])[nat j := t])
   }"

definition swapItem :: "int list \<Rightarrow> real list \<Rightarrow> int \<Rightarrow> int \<Rightarrow> (int list \<times> real list) option" where
  "swapItem idxs coords i j = do {
     idxs1 \<leftarrow> swapi idxs i j;
     coords1 \<leftarrow> swapf coords (2 * i) (2 * j);
     coords2 \<leftarrow> swapf coords1 (2 * i + 1) (2 * j + 1);
     Some (idxs1, coords2)
   }"

definition iMax :: "int \<Rightarrow> int \<Rightarrow> int" where
  "iMax a b = (if a > b then a else b)"

definition iMin :: "int \<Rightarrow> int \<Rightarrow> int" where
  "iMin a b = (if a < b then a else b)"

definition floor_kd :: "real \<Rightarrow> int" where
  "floor_kd v = \<lfloor>v\<rfloor>"

subsection \<open>Arithmetic of float64\<close>

text \<open>
  IEEE 754 binary64, as Go's \<^verbatim>\<open>float64\<close> has it: a finite value is \<open>m * 2\<^sup>e\<close> with
  \<open>|m| < 2\<^sup>5\<^sup>3\<close> and \<open>-1074 \<le> e \<le> 971\<close>. Every operation computes the exact result and
  rounds it to the nearest such value, ties to the even \<open>m\<close>; a result that rounds to
  \<open>2\<^sup>1\<^sup>0\<^sup>2\<^sup>4\<close> or beyond is an infinity. The two zeros are one value here: no operation
  of the code tells them apart. Each operation is rounded on its own, as the Go compiler
  does by default on amd64; where it fuses \<^verbatim>\<open>dx*dx + dy*dy\<close> into one multiply-add, the
  product \<^verbatim>\<open>dx*dx\<close> is not rounded. The arguments the code receives are float64 values,
  reals that \<open>round64\<close> leaves unchanged; the operations below are defined on every real.
\<close>

datatype float64 = Finite real | PosInf | NegInf | NaN

definition ties_even :: "real \<Rightarrow> int" where
  "ties_even q =
     (let f = \<lfloor>q\<rfloor>; d = q - real_of_int f
      in if d < 1 / 2 then f else if 1 / 2 < d then f + 1 else if even f then f else f + 1)"

definition round64 :: "real \<Rightarrow> float64" where
  "round64 v =
     (if v = 0 then Finite 0
      else
        (let e = max (\<lfloor>log 2 \<bar>v\<bar>\<rfloor> - 52) (- 1074);
             w = real_of_int (ties_even (v / 2 powr real_of_int e)) * 2 powr real_of_int e
         in if 2 ^ 1024 \<le> \<bar>w\<bar> then (if 0 < v then PosInf else NegInf) else Finite w))"

fun fadd :: "float64 \<Rightarrow> float64 \<Rightarrow> float64" where
  "fadd (Finite a) (Finite b) = round64 (a + b)"
| "fadd NaN _ = NaN"
| "fadd _ NaN = NaN"
| "fadd PosInf NegInf = NaN"
| "fadd NegInf PosInf = NaN"
| "fadd PosInf _ = PosInf"
| "fadd _ PosInf = PosInf"
| "fadd NegInf _ = NegInf"
| "fadd _ NegInf = NegInf"

fun fsub :: "float64 \<Rightarrow> float64 \<Rightarrow> float64" where
  "fsub (Finite a) (Finite b) = round64 (a - b)"
| "fsub NaN _ = NaN"
| "fsub _ NaN = NaN"
| "fsub PosInf PosInf = NaN"
| "fsub NegInf NegInf = NaN"
| "fsub PosInf _ = PosInf"
| "fsub _ PosInf = NegInf"
| "fsub NegInf _ = NegInf"
| "fsub _ NegInf = PosInf"

fun fmul :: "float64 \<Rightarrow> float64 \<Rightarrow> float64" where
  "fmul (Finite a) (Finite b) = round64 (a * b)"
| "fmul NaN _ = NaN"
| "fmul _ NaN = NaN"
| "fmul PosInf (Finite b) = (if b = 0 then NaN else if 0 < b then PosInf else NegInf)"
| "fmul NegInf (Finite b) = (if b = 0 then NaN else if 0 < b then NegInf else PosInf)"
| "fmul (Finite a) PosInf = (if a = 0 then NaN else if 0 < a then PosInf else NegInf)"
| "fmul (Finite a) NegInf = (if a = 0 then NaN else if 0 < a then NegInf else PosInf)"
| "fmul PosInf PosInf = PosInf"
| "fmul NegInf NegInf = PosInf"
| "fmul PosInf NegInf = NegInf"
| "fmul NegInf PosInf = NegInf"

text \<open>\<^verbatim>\<open>a <= b\<close> on float64; \<^verbatim>\<open>a >= b\<close> is \<open>fle b a\<close>. A comparison with NaN is false.\<close>

fun fle :: "float64 \<Rightarrow> float64 \<Rightarrow> bool" where
  "fle (Finite a) (Finite b) = (a \<le> b)"
| "fle NaN _ = False"
| "fle _ NaN = False"
| "fle NegInf _ = True"
| "fle _ PosInf = True"
| "fle _ _ = False"

definition sqrtDist :: "float64 \<Rightarrow> float64 \<Rightarrow> float64 \<Rightarrow> float64 \<Rightarrow> float64" where
  "sqrtDist ax ay bx by =
     (let dx = fsub ax bx; dy = fsub ay by in fadd (fmul dx dx) (fmul dy dy))"

section \<open>Selection partitioner\<close>

text \<open>The two inner scans \<^verbatim>\<open>for Coords[2*i+inc] < t { i += 1 }\<close> and
  \<^verbatim>\<open>for Coords[2*j+inc] > t { j -= 1 }\<close>.\<close>

function scan_up :: "real list \<Rightarrow> int \<Rightarrow> real \<Rightarrow> int \<Rightarrow> int option" where
  "scan_up coords inc t i =
     (case elem coords (2 * i + inc) of
        None \<Rightarrow> None
      | Some v \<Rightarrow> if v < t then scan_up coords inc t (i + 1) else Some i)"
  by pat_completeness auto
termination
  by (relation "measure (\<lambda>(coords, inc, t, i). nat (int (length coords) - (2 * i + inc)))")
     (auto simp: elem_def split: if_splits)

function scan_down :: "real list \<Rightarrow> int \<Rightarrow> real \<Rightarrow> int \<Rightarrow> int option" where
  "scan_down coords inc t j =
     (case elem coords (2 * j + inc) of
        None \<Rightarrow> None
      | Some v \<Rightarrow> if v > t then scan_down coords inc t (j - 1) else Some j)"
  by pat_completeness auto
termination
  by (relation "measure (\<lambda>(coords, inc, t, j). nat (2 * j + inc + 2))")
     (auto simp: elem_def split: if_splits)

declare scan_up.simps [simp del] scan_down.simps [simp del]

text \<open>The two-pointer loop \<^verbatim>\<open>for i < j { ... }\<close>; only \<open>j\<close> is read after it.\<close>

function ploop ::
  "int list \<Rightarrow> real list \<Rightarrow> int \<Rightarrow> real \<Rightarrow> int \<Rightarrow> int \<Rightarrow> (int list \<times> real list \<times> int) option"
where
  "ploop idxs coords inc t i j =
     (if i < j then
        (case swapItem idxs coords i j of
           None \<Rightarrow> None
         | Some (idxs1, coords1) \<Rightarrow>
             (case scan_up coords1 inc t (i + 1) of
                None \<Rightarrow> None
              | Some i1 \<Rightarrow>
                  (case scan_down coords1 inc t (j - 1) of
                     None \<Rightarrow> None
                   | Some j1 \<Rightarrow> ploop idxs1 coords1 inc t i1 j1)))
      else Some (idxs, coords, j))"
  by pat_completeness auto
termination
proof -
  have up: "i \<le> i'" if "scan_up coords inc t i = Some i'" for coords inc t i i'
    using that
    by (induction coords inc t i rule: scan_up.induct)
       (subst (asm) scan_up.simps, fastforce split: option.splits if_splits)
  have down: "j' \<le> j" if "scan_down coords inc t j = Some j'" for coords inc t j j'
    using that
    by (induction coords inc t j rule: scan_down.induct)
       (subst (asm) scan_down.simps, fastforce split: option.splits if_splits)
  show ?thesis
    by (relation "measure (\<lambda>(idxs, coords, inc, t, i, j). nat (j - i))")
       (auto dest!: up down)
qed

declare ploop.simps [simp del]

text \<open>One pass of the outer loop of \<^verbatim>\<open>sselect\<close>, from \<^verbatim>\<open>t := Coords[2*k+inc]\<close> to the
  final placement of the pivot; it returns the arrays and the final \<open>j\<close>.\<close>

definition partition_pass ::
  "int list \<Rightarrow> real list \<Rightarrow> int \<Rightarrow> int \<Rightarrow> int \<Rightarrow> int \<Rightarrow> (int list \<times> real list \<times> int) option"
where
  "partition_pass idxs coords k left right inc = do {
     t \<leftarrow> elem coords (2 * k + inc);
     (idxs1, coords1) \<leftarrow> swapItem idxs coords left k;
     cr \<leftarrow> elem coords1 (2 * right + inc);
     (idxs2, coords2) \<leftarrow>
        (if cr > t then swapItem idxs1 coords1 left right else Some (idxs1, coords1));
     (idxs3, coords3, j) \<leftarrow> ploop idxs2 coords2 inc t left right;
     cl \<leftarrow> elem coords3 (2 * left + inc);
     if cl = t then do {
       (idxs4, coords4) \<leftarrow> swapItem idxs3 coords3 left j;
       Some (idxs4, coords4, j)
     } else do {
       (idxs4, coords4) \<leftarrow> swapItem idxs3 coords3 (j + 1) right;
       Some (idxs4, coords4, j + 1)
     }
   }"

text \<open>The sampling bracket computed when \<^verbatim>\<open>right - left > 600\<close>, with \<^verbatim>\<open>math.Log\<close>,
  \<^verbatim>\<open>math.Exp\<close> and \<^verbatim>\<open>math.Sqrt\<close> as the real functions.\<close>

definition bracket :: "int \<Rightarrow> int \<Rightarrow> int \<Rightarrow> int \<times> int" where
  "bracket k left right =
     (let n = right - left + 1;
          m = k - left + 1;
          z = ln (real_of_int n);
          s = 0.5 * exp (2.0 * z / 3.0);
          sds = (if real_of_int m - real_of_int n / 2.0 < 0 then - 1.0 else 1.0);
          n_s = real_of_int n - s;
          sd = 0.5 * sqrt (z * s * n_s / real_of_int n) * sds;
          newLeft = iMax left (floor_kd (real_of_int k - real_of_int m * s / real_of_int n + sd));
          newRight = iMin right
            (floor_kd (real_of_int k + real_of_int (n - m) * s / real_of_int n + sd))
      in (newLeft, newRight))"

partial_function (option) sselect ::
  "int list \<Rightarrow> real list \<Rightarrow> int \<Rightarrow> int \<Rightarrow> int \<Rightarrow> int \<Rightarrow> (int list \<times> real list) option option"
where
  "sselect idxs coords k left right inc =
     (if right > left then do {
        r0 \<leftarrow> (if right - left > 600
               then sselect idxs coords k (fst (bracket k left right))
                      (snd (bracket k left right)) inc
               else Some (Some (idxs, coords)));
        (case r0 of
           None \<Rightarrow> Some None
         | Some (idxs0, coords0) \<Rightarrow>
             (case partition_pass idxs0 coords0 k left right inc of
                None \<Rightarrow> Some None
              | Some (idxs1, coords1, j) \<Rightarrow>
                  sselect idxs1 coords1 k
                    (if j \<le> k then j + 1 else left)
                    (if k \<le> j then j - 1 else right) inc))
      } else Some (Some (idxs, coords)))"

section \<open>Index builder\<close>

partial_function (option) sort_kd ::
  "int list \<Rightarrow> real list \<Rightarrow> int \<Rightarrow> int \<Rightarrow> int \<Rightarrow> int \<Rightarrow> (int list \<times> real list) option option"
where
  "sort_kd idxs coords nodeSize left right depth =
     (if right - left \<le> nodeSize then Some (Some (idxs, coords))
      else
        (let m = floor_kd (real_of_int (left + right) / 2.0) in
         do {
           r1 \<leftarrow> sselect idxs coords m left right (depth smod 2);
           (case r1 of
              None \<Rightarrow> Some None
            | Some (idxs1, coords1) \<Rightarrow> do {
                r2 \<leftarrow> sort_kd idxs1 coords1 nodeSize left (m - 1) (depth + 1);
                (case r2 of
                   None \<Rightarrow> Some None
                 | Some (idxs2, coords2) \<Rightarrow>
                     sort_kd idxs2 coords2 nodeSize (m + 1) right (depth + 1))
              })
         }))"

definition buildIndex :: "SimplePoint list \<Rightarrow> int \<Rightarrow> KDBush option option" where
  "buildIndex points nodeSize =
     (let idxs = map int [0..<length points];
          coords = concat (map (\<lambda>v. case Coordinates v of (x, y) \<Rightarrow> [x, y]) points)
      in do {
        r \<leftarrow> sort_kd idxs coords nodeSize 0 (int (length idxs) - 1) 0;
        (case r of
           None \<Rightarrow> Some None
         | Some (idxs1, coords1) \<Rightarrow>
             Some (Some \<lparr>NodeSize = nodeSize, Points = points, Idxs = idxs1, Coords = coords1\<rparr>))
      })"

definition NewBush :: "SimplePoint list \<Rightarrow> int \<Rightarrow> KDBush option option" where
  "NewBush points nodeSize = buildIndex points nodeSize"

section \<open>Range query\<close>

text \<open>\<^verbatim>\<open>v := stack[len(stack)-1]; stack = stack[:len(stack)-1]\<close>\<close>

definition pop :: "int list \<Rightarrow> (int \<times> int list) option" where
  "pop stack = do {
     v \<leftarrow> elem stack (int (length stack) - 1);
     Some (v, butlast stack)
   }"

text \<open>The three pops at the head of both query loops: axis, right, left.\<close>

definition pop3 :: "int list \<Rightarrow> (int \<times> int \<times> int \<times> int list) option" where
  "pop3 stack = do {
     (axis, stack1) \<leftarrow> pop stack;
     (right, stack2) \<leftarrow> pop stack1;
     (left, stack3) \<leftarrow> pop stack2;
     Some (left, right, axis, stack3)
   }"

text \<open>The leaf scan \<^verbatim>\<open>for i := left; i <= right; i++\<close> of \<^verbatim>\<open>Range\<close>.\<close>

function range_leaf ::
  "KDBush \<Rightarrow> real \<Rightarrow> real \<Rightarrow> real \<Rightarrow> real \<Rightarrow> int \<Rightarrow> int \<Rightarrow> int list \<Rightarrow> int list option"
where
  "range_leaf bush minX minY maxX maxY i right result =
     (if i \<le> right then
        (case elem (Coords bush) (2 * i) of
           None \<Rightarrow> None
         | Some x \<Rightarrow>
             (case elem (Coords bush) (2 * i + 1) of
                None \<Rightarrow> None
              | Some y \<Rightarrow>
                  if x \<ge> minX \<and> x \<le> maxX \<and> y \<ge> minY \<and> y \<le> maxY then
                    (case elem (Idxs bush) i of
                       None \<Rightarrow> None
                     | Some idx \<Rightarrow>
                         range_leaf bush minX minY maxX maxY (i + 1) right (result @ [idx]))
                  else range_leaf bush minX minY maxX maxY (i + 1) right result))
      else Some result)"
  by pat_completeness auto
termination
  by (relation "measure (\<lambda>(bush, minX, minY, maxX, maxY, i, right, result). nat (right + 1 - i))")
     auto

declare range_leaf.simps [simp del]

partial_function (option) range_loop ::
  "KDBush \<Rightarrow> real \<Rightarrow> real \<Rightarrow> real \<Rightarrow> real \<Rightarrow> int list \<Rightarrow> int list \<Rightarrow> int list option option"
where
  "range_loop bush minX minY maxX maxY stack result =
     (if length stack > 0 then
        (case pop3 stack of
           None \<Rightarrow> Some None
         | Some (left, right, axis, stack1) \<Rightarrow>
             if right - left \<le> NodeSize bush then
               (case range_leaf bush minX minY maxX maxY left right result of
                  None \<Rightarrow> Some None
                | Some result1 \<Rightarrow> range_loop bush minX minY maxX maxY stack1 result1)
             else
               (let m = floor_kd (real_of_int (left + right) / 2.0) in
                case do {
                       x \<leftarrow> elem (Coords bush) (2 * m);
                       y \<leftarrow> elem (Coords bush) (2 * m + 1);
                       result1 \<leftarrow>
                         (if x \<ge> minX \<and> x \<le> maxX \<and> y \<ge> minY \<and> y \<le> maxY
                          then do { idx \<leftarrow> elem (Idxs bush) m; Some (result @ [idx]) }
                          else Some result);
                       Some (x, y, result1)
                     } of
                  None \<Rightarrow> Some None
                | Some (x, y, result1) \<Rightarrow>
                    (let nextAxis = (axis + 1) smod 2;
                         stack2 = (if (axis = 0 \<and> minX \<le> x) \<or> (axis \<noteq> 0 \<and> minY \<le> y)
                                   then stack1 @ [left, m - 1, nextAxis] else stack1);
                         stack3 = (if (axis = 0 \<and> maxX \<ge> x) \<or> (axis \<noteq> 0 \<and> maxY \<ge> y)
                                   then stack2 @ [m + 1, right, nextAxis] else stack2)
                     in range_loop bush minX minY maxX maxY stack3 result1)))
      else Some (Some result))"

definition Range_kd :: "KDBush \<Rightarrow> real \<Rightarrow> real \<Rightarrow> real \<Rightarrow> real \<Rightarrow> int list option option" where
  "Range_kd bush minX minY maxX maxY =
     range_loop bush minX minY maxX maxY [0, int (length (Idxs bush)) - 1, 0] []"

section \<open>Radius query\<close>

function within_leaf ::
  "KDBush \<Rightarrow> real \<Rightarrow> real \<Rightarrow> float64 \<Rightarrow> int \<Rightarrow> int \<Rightarrow> int list \<Rightarrow> int list option"
where
  "within_leaf bush qx qy r2 i right result =
     (if i \<le> right then
        (case elem (Coords bush) (2 * i) of
           None \<Rightarrow> None
         | Some x \<Rightarrow>
             (case elem (Coords bush) (2 * i + 1) of
                None \<Rightarrow> None
              | Some y \<Rightarrow>
                  (let dst = sqrtDist (Finite x) (Finite y) (Finite qx) (Finite qy) in
                   if fle dst r2 then
                     (case elem (Idxs bush) i of
                        None \<Rightarrow> None
                      | Some idx \<Rightarrow> within_leaf bush qx qy r2 (i + 1) right (result @ [idx]))
                   else within_leaf bush qx qy r2 (i + 1) right result)))
      else Some result)"
  by pat_completeness auto
termination
  by (relation "measure (\<lambda>(bush, qx, qy, r2, i, right, result). nat (right + 1 - i))") auto

declare within_leaf.simps [simp del]

partial_function (option) within_loop ::
  "KDBush \<Rightarrow> real \<Rightarrow> real \<Rightarrow> real \<Rightarrow> float64 \<Rightarrow> int list \<Rightarrow> int list \<Rightarrow> int list option option"
where
  "within_loop bush qx qy radius r2 stack result =
     (if length stack > 0 then
        (case pop3 stack of
           None \<Rightarrow> Some None
         | Some (left, right, axis, stack1) \<Rightarrow>
             if right - left \<le> NodeSize bush then
               (case within_leaf bush qx qy r2 left right result of
                  None \<Rightarrow> Some None
                | Some result1 \<Rightarrow> within_loop bush qx qy radius r2 stack1 result1)
             else
               (let m = floor_kd (real_of_int (left + right) / 2.0) in
                case do {
                       x \<leftarrow> elem (Coords bush) (2 * m);
                       y \<leftarrow> elem (Coords bush) (2 * m + 1);
                       result1 \<leftarrow>
                         (if fle (sqrtDist (Finite x) (Finite y) (Finite qx) (Finite qy)) r2
                          then do { idx \<leftarrow> elem (Idxs bush) m; Some (result @ [idx]) }
                          else Some result);
                       Some (x, y, result1)
                     } of
                  None \<Rightarrow> Some None
                | Some (x, y, result1) \<Rightarrow>
                    (let nextAxis = (axis + 1) smod 2;
                         stack2 =
                           (if (axis = 0 \<and> fle (fsub (Finite qx) (Finite radius)) (Finite x))
                               \<or> (axis \<noteq> 0 \<and> fle (fsub (Finite qy) (Finite radius)) (Finite y))
                            then stack1 @ [left, m - 1, nextAxis] else stack1);
                         stack3 =
                           (if (axis = 0 \<and> fle (Finite x) (fadd (Finite qx) (Finite radius)))
                               \<or> (axis \<noteq> 0 \<and> fle (Finite y) (fadd (Finite qy) (Finite radius)))
                            then stack2 @ [m + 1, right, nextAxis] else stack2)
                     in within_loop bush qx qy radius r2 stack3 result1)))
      else Some (Some result))"

definition Within :: "KDBush \<Rightarrow> SimplePoint \<Rightarrow> real \<Rightarrow> int list option option" where
  "Within bush point radius =
     (let r2 = fmul (Finite radius) (Finite radius) in
      case Coordinates point of
        (qx, qy) \<Rightarrow>
          within_loop bush qx qy radius r2 [0, int (length (Idxs bush)) - 1, 0] [])"

section \<open>Specification vocabulary\<close>

text \<open>The item at position \<open>p\<close>: the index entry with its two coordinates. The arrays are
  in lockstep when \<open>Coords\<close> is twice as long as \<open>Idxs\<close>.\<close>

definition item_at :: "int list \<Rightarrow> real list \<Rightarrow> nat \<Rightarrow> int \<times> real \<times> real" where
  "item_at idxs coords p = (idxs ! p, coords ! (2 * p), coords ! (2 * p + 1))"

definition items :: "int list \<Rightarrow> real list \<Rightarrow> (int \<times> real \<times> real) list" where
  "items idxs coords = map (item_at idxs coords) [0..<length idxs]"

definition lockstep :: "int list \<Rightarrow> real list \<Rightarrow> bool" where
  "lockstep idxs coords \<longleftrightarrow> length coords = 2 * length idxs"

text \<open>The axis value (\<open>inc\<close> is 0 for x, 1 for y) of an item, and of position \<open>p\<close> of
  \<open>Coords\<close> as the code reads it, \<^verbatim>\<open>Coords[2*p+inc]\<close>.\<close>

definition ikey :: "int \<Rightarrow> int \<times> real \<times> real \<Rightarrow> real" where
  "ikey inc it = (if inc = 0 then fst (snd it) else snd (snd it))"

definition key_at :: "real list \<Rightarrow> int \<Rightarrow> int \<Rightarrow> real" where
  "key_at coords inc p = coords ! nat (2 * p + inc)"

text \<open>\<open>rearr l r xs ys\<close>: \<open>ys\<close> is \<open>xs\<close> with the elements at the positions \<open>l..r\<close>
  permuted and every other position untouched.\<close>

definition rearr :: "int \<Rightarrow> int \<Rightarrow> 'a list \<Rightarrow> 'a list \<Rightarrow> bool" where
  "rearr l r xs ys \<longleftrightarrow>
     length ys = length xs \<and> mset ys = mset xs \<and>
     (\<forall>p<length xs. int p < l \<or> r < int p \<longrightarrow> ys ! p = xs ! p)"

definition slice :: "int \<Rightarrow> int \<Rightarrow> 'a list \<Rightarrow> 'a list" where
  "slice l r xs = take (nat (r + 1 - l)) (drop (nat l) xs)"

text \<open>Position \<open>k\<close> partitions \<open>[left, right]\<close> along the axis.\<close>

definition part :: "real list \<Rightarrow> int \<Rightarrow> int \<Rightarrow> int \<Rightarrow> int \<Rightarrow> bool" where
  "part coords inc left k right \<longleftrightarrow>
     (\<forall>p. left \<le> p \<and> p < k \<longrightarrow> key_at coords inc p \<le> key_at coords inc k) \<and>
     (\<forall>p. k < p \<and> p \<le> right \<longrightarrow> key_at coords inc k \<le> key_at coords inc p)"

text \<open>The k-d partial order of the specification, on the range \<open>[left, right]\<close> at a
  depth.\<close>

inductive kd_inv :: "real list \<Rightarrow> int \<Rightarrow> int \<Rightarrow> int \<Rightarrow> int \<Rightarrow> bool"
  for coords :: "real list" and nodeSize :: int
where
  leaf: "right - left \<le> nodeSize \<Longrightarrow> kd_inv coords nodeSize left right depth"
| node: "\<not> right - left \<le> nodeSize \<Longrightarrow> m = (left + right) div 2 \<Longrightarrow> a = depth mod 2 \<Longrightarrow>
         (\<forall>i. left \<le> i \<and> i \<le> m - 1 \<longrightarrow> key_at coords a i \<le> key_at coords a m) \<Longrightarrow>
         (\<forall>i. m + 1 \<le> i \<and> i \<le> right \<longrightarrow> key_at coords a m \<le> key_at coords a i) \<Longrightarrow>
         kd_inv coords nodeSize left (m - 1) (depth + 1) \<Longrightarrow>
         kd_inv coords nodeSize (m + 1) right (depth + 1) \<Longrightarrow>
         kd_inv coords nodeSize left right depth"

text \<open>The pairing invariant: position \<open>i\<close> holds the coordinates of the point whose
  original position is \<open>Idxs[i]\<close>.\<close>

definition point_item :: "SimplePoint list \<Rightarrow> nat \<Rightarrow> int \<times> real \<times> real" where
  "point_item points i = (int i, X (points ! i), Y (points ! i))"

definition paired :: "SimplePoint list \<Rightarrow> int list \<Rightarrow> real list \<Rightarrow> bool" where
  "paired points idxs coords \<longleftrightarrow>
     length coords = 2 * length idxs \<and>
     (\<forall>i<length idxs. 0 \<le> idxs ! i \<and> idxs ! i < int (length points) \<and>
        coords ! (2 * i) = X (points ! nat (idxs ! i)) \<and>
        coords ! (2 * i + 1) = Y (points ! nat (idxs ! i)))"

text \<open>The two membership tests of the queries.\<close>

definition in_box :: "real \<Rightarrow> real \<Rightarrow> real \<Rightarrow> real \<Rightarrow> real \<Rightarrow> real \<Rightarrow> bool" where
  "in_box minX minY maxX maxY x y \<longleftrightarrow> minX \<le> x \<and> x \<le> maxX \<and> minY \<le> y \<and> y \<le> maxY"

text \<open>What a built index is, for the query lemmas: lockstep arrays that pair every
  position with an original point, a permutation of the original positions, and the k-d
  partial order.\<close>

definition built :: "SimplePoint list \<Rightarrow> KDBush \<Rightarrow> bool" where
  "built points bush \<longleftrightarrow>
     length (Idxs bush) = length points \<and>
     mset (Idxs bush) = mset (map int [0..<length points]) \<and>
     paired points (Idxs bush) (Coords bush) \<and>
     kd_inv (Coords bush) (NodeSize bush) 0 (int (length points) - 1) 0"




text \<open>A real is a float64 value when rounding leaves it as it is. A radius query is exact
  on a point list when none of its float64 operations rounds: the square of the radius,
  the four bounds \<open>qx \<plusminus> radius\<close>, \<open>qy \<plusminus> radius\<close>, and for every point the two differences,
  their squares and the sum of the squares.\<close>

definition exact :: "real \<Rightarrow> bool" where
  "exact v \<longleftrightarrow> round64 v = Finite v"



section \<open>Array and rearrangement lemmas\<close>

lemma elem_Some: "0 \<le> i \<Longrightarrow> i < int (length a) \<Longrightarrow> elem a i = Some (a ! nat i)"
  by (simp add: elem_def)

lemma length_items [simp]: "length (items idxs coords) = length idxs"
  by (simp add: items_def)

lemma nth_items: "p < length idxs \<Longrightarrow> items idxs coords ! p = item_at idxs coords p"
  by (simp add: items_def)

lemma swapItem_Some:
  assumes "lockstep idxs coords" "0 \<le> i" "i < int (length idxs)" "0 \<le> j" "j < int (length idxs)"
  shows "\<exists>idxs' coords'. swapItem idxs coords i j = Some (idxs', coords') \<and> lockstep idxs' coords'
           \<and> length idxs' = length idxs
           \<and> items idxs' coords' = (items idxs coords)[nat i := items idxs coords ! nat j,
                                                      nat j := items idxs coords ! nat i]"
proof -
  define a where "a = nat i"
  define b where "b = nat j"
  have ab: "a < length idxs" "b < length idxs" "i = int a" "j = int b"
    using assms by (auto simp: a_def b_def)
  have len: "length coords = 2 * length idxs" using assms(1) by (simp add: lockstep_def)
  have n2: "nat (2 * int a) = 2 * a" "nat (2 * int b) = 2 * b"
     "nat (2 * int a + 1) = 2 * a + 1" "nat (2 * int b + 1) = 2 * b + 1"
    by auto
  let ?I = "idxs[a := idxs ! b, b := idxs ! a]"
  let ?C1 = "coords[2 * a := coords ! (2 * b), 2 * b := coords ! (2 * a)]"
  let ?C = "?C1[2 * a + 1 := ?C1 ! (2 * b + 1), 2 * b + 1 := ?C1 ! (2 * a + 1)]"
  have sw: "swapItem idxs coords i j = Some (?I, ?C)"
    using ab(1,2) len unfolding swapItem_def swapi_def swapf_def ab(3,4)
    by (simp add: elem_def n2)
  have "items ?I ?C = (items idxs coords)[a := items idxs coords ! b, b := items idxs coords ! a]"
  proof (rule nth_equalityI)
    show "length (items ?I ?C) = length ((items idxs coords)[a := items idxs coords ! b, b := items idxs coords ! a])"
      by simp
  next
    fix p assume "p < length (items ?I ?C)"
    then have p: "p < length idxs" by simp
    show "items ?I ?C ! p = (items idxs coords)[a := items idxs coords ! b, b := items idxs coords ! a] ! p"
      using p ab(1,2) len
      by (auto simp: nth_items item_at_def nth_list_update)
  qed
  then show ?thesis using sw len by (auto simp: lockstep_def a_def b_def)
qed

lemma rearr_refl [simp]: "rearr l r xs xs"
  by (simp add: rearr_def)

lemma rearr_trans: "rearr l r xs ys \<Longrightarrow> rearr l r ys zs \<Longrightarrow> rearr l r xs zs"
  by (auto simp: rearr_def)

lemma rearr_mono: "rearr l r xs ys \<Longrightarrow> l' \<le> l \<Longrightarrow> r \<le> r' \<Longrightarrow> rearr l' r' xs ys"
  by (auto simp: rearr_def)

lemma rearr_length: "rearr l r xs ys \<Longrightarrow> length ys = length xs"
  by (simp add: rearr_def)

lemma rearr_mset: "rearr l r xs ys \<Longrightarrow> mset ys = mset xs"
  by (simp add: rearr_def)

lemma rearr_frame: "rearr l r xs ys \<Longrightarrow> 0 \<le> p \<Longrightarrow> p < int (length xs) \<Longrightarrow> p < l \<or> r < p \<Longrightarrow> ys ! nat p = xs ! nat p"
  by (auto simp: rearr_def)

lemma rearr_swap:
  assumes "l \<le> i" "i \<le> r" "l \<le> j" "j \<le> r" "0 \<le> i" "0 \<le> j" "i < int (length xs)" "j < int (length xs)"
  shows "rearr l r xs (xs[nat i := xs ! nat j, nat j := xs ! nat i])"
  using assms by (auto simp: rearr_def mset_swap nth_list_update)

lemma split_slice:
  assumes "0 \<le> l" "l \<le> r + 1" "r < int (length xs)"
  shows "xs = take (nat l) xs @ slice l r xs @ drop (nat (r + 1)) xs"
proof -
  have "drop (nat l) xs = take (nat (r + 1 - l)) (drop (nat l) xs) @ drop (nat (r + 1 - l)) (drop (nat l) xs)"
    by (simp only: append_take_drop_id)
  moreover have "nat (r + 1 - l) + nat l = nat (r + 1)" using assms by auto
  ultimately have "drop (nat l) xs = slice l r xs @ drop (nat (r + 1)) xs"
    by (simp add: slice_def)
  then show ?thesis by (metis append_take_drop_id)
qed

lemma rearr_slice_mset:
  assumes "rearr l r xs ys" "0 \<le> l" "l \<le> r + 1" "r < int (length xs)"
  shows "mset (slice l r ys) = mset (slice l r xs)"
proof -
  have len: "length ys = length xs" using assms(1) by (simp add: rearr_def)
  have t: "take (nat l) ys = take (nat l) xs"
    using assms len by (intro nth_equalityI) (auto simp: rearr_def)
  have d: "drop (nat (r + 1)) ys = drop (nat (r + 1)) xs"
    using assms len by (intro nth_equalityI) (auto simp: rearr_def)
  have "mset (take (nat l) xs @ slice l r xs @ drop (nat (r + 1)) xs)
      = mset (take (nat l) ys @ slice l r ys @ drop (nat (r + 1)) ys)"
    using split_slice[OF assms(2,3,4)] split_slice[of l r ys] assms len
    by (metis rearr_mset)
  then show ?thesis by (simp add: t d)
qed

lemma nth_slice:
  assumes "0 \<le> l" "l \<le> p" "p \<le> r" "r < int (length xs)"
  shows "slice l r xs ! nat (p - l) = xs ! nat p"
proof -
  have "nat l + nat (p - l) = nat p" using assms by auto
  then show ?thesis using assms by (simp add: slice_def)
qed

lemma length_slice: "0 \<le> l \<Longrightarrow> r < int (length xs) \<Longrightarrow> length (slice l r xs) = nat (r + 1 - l)"
  by (auto simp: slice_def)

lemma set_slice:
  assumes "0 \<le> l" "r < int (length xs)"
  shows "set (slice l r xs) = {xs ! nat p | p. l \<le> p \<and> p \<le> r}"
proof (intro set_eqI iffI)
  fix x assume "x \<in> set (slice l r xs)"
  then obtain q where q: "q < length (slice l r xs)" "x = slice l r xs ! q"
    by (auto simp: in_set_conv_nth)
  then have "q < nat (r + 1 - l)" using assms by (simp add: length_slice)
  then have "l \<le> l + int q" "l + int q \<le> r" by auto
  moreover have "x = xs ! nat (l + int q)"
    using q(2) nth_slice[OF assms(1) \<open>l \<le> l + int q\<close> \<open>l + int q \<le> r\<close> assms(2)] by simp
  ultimately show "x \<in> {xs ! nat p | p. l \<le> p \<and> p \<le> r}" by blast
next
  fix x assume "x \<in> {xs ! nat p | p. l \<le> p \<and> p \<le> r}"
  then obtain p where p: "l \<le> p" "p \<le> r" "x = xs ! nat p" by blast
  have "nat (p - l) < length (slice l r xs)" using p assms by (simp add: length_slice)
  then have "slice l r xs ! nat (p - l) \<in> set (slice l r xs)" by (rule nth_mem)
  then show "x \<in> set (slice l r xs)" using nth_slice[OF assms(1) p(1,2) assms(2)] p(3) by simp
qed

lemma rearr_range_all:
  assumes "rearr l r xs ys" "0 \<le> l" "r < int (length xs)"
    and P: "\<And>p. l \<le> p \<Longrightarrow> p \<le> r \<Longrightarrow> P (xs ! nat p)"
    and q: "l \<le> q" "q \<le> r"
  shows "P (ys ! nat q)"
proof -
  have lr: "l \<le> r + 1" using q by simp
  have len: "length ys = length xs" using assms(1) by (simp add: rearr_def)
  have "set (slice l r ys) = set (slice l r xs)"
    using rearr_slice_mset[OF assms(1,2) lr assms(3)] by (metis set_mset_mset)
  moreover have "ys ! nat q \<in> set (slice l r ys)"
    using set_slice[of l r ys] assms(2,3) q len by auto
  ultimately have "ys ! nat q \<in> {xs ! nat p | p. l \<le> p \<and> p \<le> r}"
    using set_slice[OF assms(2,3)] by simp
  then show ?thesis using P by auto
qed

lemma key_at_items:
  assumes "lockstep idxs coords" "0 \<le> p" "p < int (length idxs)" "inc = 0 \<or> inc = 1"
  shows "key_at coords inc p = ikey inc (items idxs coords ! nat p)"
proof -
  have "nat (2 * p) = 2 * nat p" "nat (2 * p + 1) = 2 * nat p + 1" using assms(2) by auto
  then show ?thesis using assms by (auto simp: key_at_def ikey_def nth_items item_at_def)
qed

lemma elem_key:
  assumes "lockstep idxs coords" "0 \<le> p" "p < int (length idxs)" "inc = 0 \<or> inc = 1"
  shows "elem coords (2 * p + inc) = Some (key_at coords inc p)"
  using assms by (auto simp: elem_def key_at_def lockstep_def)

section \<open>The selection partitioner\<close>

lemma scan_up_spec:
  assumes "lockstep idxs coords" "inc = 0 \<or> inc = 1" "0 \<le> i" "i \<le> q" "q < int (length idxs)"
    "t \<le> key_at coords inc q"
  shows "\<exists>i'. scan_up coords inc t i = Some i' \<and> i \<le> i' \<and> i' \<le> q \<and> t \<le> key_at coords inc i'
           \<and> (\<forall>p. i \<le> p \<and> p < i' \<longrightarrow> key_at coords inc p < t)"
  using assms(3,4)
proof (induction "nat (q - i)" arbitrary: i)
  case 0
  then have "i = q" by simp
  then show ?case using assms
    by (subst scan_up.simps) (auto simp: elem_key)
next
  case (Suc n)
  have e: "elem coords (2 * i + inc) = Some (key_at coords inc i)"
    using elem_key[OF assms(1) _ _ assms(2)] Suc assms(5) by auto
  show ?case
  proof (cases "key_at coords inc i < t")
    case False
    then show ?thesis using Suc.prems by (subst scan_up.simps) (auto simp: e)
  next
    case True
    have "n = nat (q - (i + 1))" "0 \<le> i + 1" "i + 1 \<le> q" using Suc by auto
    from Suc.hyps(1)[OF this] obtain i' where
      i': "scan_up coords inc t (i + 1) = Some i'" "i + 1 \<le> i'" "i' \<le> q" "t \<le> key_at coords inc i'"
        "\<forall>p. i + 1 \<le> p \<and> p < i' \<longrightarrow> key_at coords inc p < t" by blast
    have "\<forall>p. i \<le> p \<and> p < i' \<longrightarrow> key_at coords inc p < t"
    proof (intro allI impI)
      fix p assume "i \<le> p \<and> p < i'"
      then show "key_at coords inc p < t" using True i'(5) by (cases "p = i") auto
    qed
    then show ?thesis using i' True by (subst scan_up.simps) (auto simp: e)
  qed
qed

lemma scan_down_spec:
  assumes "lockstep idxs coords" "inc = 0 \<or> inc = 1" "0 \<le> q" "q \<le> j" "j < int (length idxs)"
    "key_at coords inc q \<le> t"
  shows "\<exists>j'. scan_down coords inc t j = Some j' \<and> q \<le> j' \<and> j' \<le> j \<and> key_at coords inc j' \<le> t
           \<and> (\<forall>p. j' < p \<and> p \<le> j \<longrightarrow> t < key_at coords inc p)"
  using assms(4,5)
proof (induction "nat (j - q)" arbitrary: j)
  case 0
  then have "j = q" by simp
  then show ?case using assms
    by (subst scan_down.simps) (auto simp: elem_key)
next
  case (Suc n)
  have e: "elem coords (2 * j + inc) = Some (key_at coords inc j)"
    using elem_key[OF assms(1) _ _ assms(2)] Suc assms(3) by auto
  show ?case
  proof (cases "t < key_at coords inc j")
    case False
    then show ?thesis using Suc.prems by (subst scan_down.simps) (auto simp: e)
  next
    case True
    have "n = nat (j - 1 - q)" "q \<le> j - 1" "j - 1 < int (length idxs)" using Suc by auto
    from Suc.hyps(1)[OF this] obtain j' where
      j': "scan_down coords inc t (j - 1) = Some j'" "q \<le> j'" "j' \<le> j - 1" "key_at coords inc j' \<le> t"
        "\<forall>p. j' < p \<and> p \<le> j - 1 \<longrightarrow> t < key_at coords inc p" by blast
    have "\<forall>p. j' < p \<and> p \<le> j \<longrightarrow> t < key_at coords inc p"
    proof (intro allI impI)
      fix p assume "j' < p \<and> p \<le> j"
      then show "t < key_at coords inc p" using True j'(5) by (cases "p = j") auto
    qed
    then show ?thesis using j' True by (subst scan_down.simps) (auto simp: e)
  qed
qed

lemma swapItem_spec:
  assumes "lockstep idxs coords" "0 \<le> i" "i < int (length idxs)" "0 \<le> j" "j < int (length idxs)"
  shows "\<exists>idxs' coords'. swapItem idxs coords i j = Some (idxs', coords') \<and> lockstep idxs' coords'
           \<and> length idxs' = length idxs
           \<and> (\<forall>l r. l \<le> i \<and> i \<le> r \<and> l \<le> j \<and> j \<le> r \<longrightarrow>
                 rearr l r (items idxs coords) (items idxs' coords'))
           \<and> (\<forall>inc. inc = 0 \<or> inc = 1 \<longrightarrow>
                 key_at coords' inc i = key_at coords inc j \<and>
                 key_at coords' inc j = key_at coords inc i \<and>
                 (\<forall>p. 0 \<le> p \<and> p < int (length idxs) \<and> p \<noteq> i \<and> p \<noteq> j \<longrightarrow>
                    key_at coords' inc p = key_at coords inc p))"
proof -
  let ?xs = "items idxs coords"
  from swapItem_Some[OF assms] obtain idxs' coords' where
    sw: "swapItem idxs coords i j = Some (idxs', coords')" "lockstep idxs' coords'"
      "length idxs' = length idxs"
      "items idxs' coords' = ?xs[nat i := ?xs ! nat j, nat j := ?xs ! nat i]"
    by blast
  have r: "\<forall>l r. l \<le> i \<and> i \<le> r \<and> l \<le> j \<and> j \<le> r \<longrightarrow> rearr l r ?xs (items idxs' coords')"
    unfolding sw(4) using assms by (auto intro!: rearr_swap)
  have k: "key_at coords' inc p = ikey inc (?xs[nat i := ?xs ! nat j, nat j := ?xs ! nat i] ! nat p)"
    if "inc = 0 \<or> inc = 1" "0 \<le> p" "p < int (length idxs)" for inc p
    using key_at_items[OF sw(2), of p inc] that sw(3,4) by simp
  have k0: "key_at coords inc p = ikey inc (?xs ! nat p)"
    if "inc = 0 \<or> inc = 1" "0 \<le> p" "p < int (length idxs)" for inc p
    using key_at_items[OF assms(1), of p inc] that by simp
  have "key_at coords' inc i = key_at coords inc j \<and>
        key_at coords' inc j = key_at coords inc i \<and>
        (\<forall>p. 0 \<le> p \<and> p < int (length idxs) \<and> p \<noteq> i \<and> p \<noteq> j \<longrightarrow>
            key_at coords' inc p = key_at coords inc p)" if inc: "inc = 0 \<or> inc = 1" for inc
  proof (intro conjI allI impI)
    show "key_at coords' inc i = key_at coords inc j"
      using k[OF inc assms(2,3)] k0[OF inc assms(4,5)] assms by (auto simp: nth_list_update)
    show "key_at coords' inc j = key_at coords inc i"
      using k[OF inc assms(4,5)] k0[OF inc assms(2,3)] assms by (auto simp: nth_list_update)
    fix p assume p: "0 \<le> p \<and> p < int (length idxs) \<and> p \<noteq> i \<and> p \<noteq> j"
    then have "nat p \<noteq> nat i" "nat p \<noteq> nat j" using assms by auto
    then show "key_at coords' inc p = key_at coords inc p"
      using k[OF inc, of p] k0[OF inc, of p] p by (simp add: nth_list_update)
  qed
  then show ?thesis using sw(1,2,3) r by blast
qed

lemma ploop_spec:
  assumes "lockstep idxs coords" "inc = 0 \<or> inc = 1" "0 \<le> L" "R < int (length idxs)"
    "L < i" "i \<le> R" "L \<le> j" "j < R"
    "\<forall>p. L \<le> p \<and> p < i \<longrightarrow> key_at coords inc p \<le> t"
    "\<forall>p. j < p \<and> p \<le> R \<longrightarrow> t \<le> key_at coords inc p"
    "t \<le> key_at coords inc i" "key_at coords inc j \<le> t"
  shows "\<exists>idxs' coords' j'. ploop idxs coords inc t i j = Some (idxs', coords', j')
           \<and> lockstep idxs' coords' \<and> length idxs' = length idxs
           \<and> rearr (L + 1) (R - 1) (items idxs coords) (items idxs' coords')
           \<and> L \<le> j' \<and> j' < R
           \<and> (\<forall>p. L \<le> p \<and> p \<le> j' \<longrightarrow> key_at coords' inc p \<le> t)
           \<and> (\<forall>p. j' < p \<and> p \<le> R \<longrightarrow> t \<le> key_at coords' inc p)"
  using assms
proof (induction idxs coords inc t i j rule: ploop.induct)
  case (1 idxs coords inc t i j)
  note wf0 = \<open>lockstep idxs coords\<close> and inc = \<open>inc = 0 \<or> inc = 1\<close>
  show ?case
  proof (cases "i < j")
    case False
    have "\<forall>p. L \<le> p \<and> p \<le> j \<longrightarrow> key_at coords inc p \<le> t"
    proof (intro allI impI)
      fix p assume "L \<le> p \<and> p \<le> j"
      then show "key_at coords inc p \<le> t"
        using "1.prems"(9,12) False by (cases "p = j") auto
    qed
    then show ?thesis using False "1.prems" by (subst ploop.simps) auto
  next
    case True
    have bi: "0 \<le> i" "i < int (length idxs)" and bj: "0 \<le> j" "j < int (length idxs)"
      using "1.prems" True by auto
    from swapItem_spec[OF wf0 bi bj] obtain idxs1 coords1 where
      sw: "swapItem idxs coords i j = Some (idxs1, coords1)" "lockstep idxs1 coords1"
        "length idxs1 = length idxs"
        "rearr (L + 1) (R - 1) (items idxs coords) (items idxs1 coords1)"
      and k1: "key_at coords1 inc i = key_at coords inc j"
        "key_at coords1 inc j = key_at coords inc i"
        "\<And>p. 0 \<le> p \<Longrightarrow> p < int (length idxs) \<Longrightarrow> p \<noteq> i \<Longrightarrow> p \<noteq> j \<Longrightarrow>
            key_at coords1 inc p = key_at coords inc p"
      using inc "1.prems"(5,8) True by (smt (verit, best))
    have "\<exists>i1. scan_up coords1 inc t (i + 1) = Some i1 \<and> i + 1 \<le> i1 \<and> i1 \<le> j
            \<and> t \<le> key_at coords1 inc i1
            \<and> (\<forall>p. i + 1 \<le> p \<and> p < i1 \<longrightarrow> key_at coords1 inc p < t)"
      by (rule scan_up_spec[OF sw(2) inc]) (use bi bj True sw(3) k1(2) "1.prems"(11) in auto)
    then obtain i1 where
      up: "scan_up coords1 inc t (i + 1) = Some i1" "i + 1 \<le> i1" "i1 \<le> j"
        "t \<le> key_at coords1 inc i1"
        "\<And>p. i + 1 \<le> p \<Longrightarrow> p < i1 \<Longrightarrow> key_at coords1 inc p < t"
      by blast
    have "\<exists>j1. scan_down coords1 inc t (j - 1) = Some j1 \<and> i \<le> j1 \<and> j1 \<le> j - 1
            \<and> key_at coords1 inc j1 \<le> t
            \<and> (\<forall>p. j1 < p \<and> p \<le> j - 1 \<longrightarrow> t < key_at coords1 inc p)"
      by (rule scan_down_spec[OF sw(2) inc]) (use bi bj True sw(3) k1(1) "1.prems"(12) in auto)
    then obtain j1 where
      dn: "scan_down coords1 inc t (j - 1) = Some j1" "i \<le> j1" "j1 \<le> j - 1"
        "key_at coords1 inc j1 \<le> t"
        "\<And>p. j1 < p \<Longrightarrow> p \<le> j - 1 \<Longrightarrow> t < key_at coords1 inc p"
      by blast
    have lo: "\<forall>p. L \<le> p \<and> p < i1 \<longrightarrow> key_at coords1 inc p \<le> t"
    proof (intro allI impI)
      fix p assume p: "L \<le> p \<and> p < i1"
      consider "p < i" | "p = i" | "i < p" by linarith
      then show "key_at coords1 inc p \<le> t"
      proof cases
        case 1
        then have "key_at coords1 inc p = key_at coords inc p"
          using k1(3)[of p] p "1.prems"(3) bi True by auto
        then show ?thesis using "1.prems"(9) p 1 by auto
      next
        case 2
        then show ?thesis using k1(1) "1.prems"(12) by simp
      next
        case 3
        then show ?thesis using up(5)[of p] p by auto
      qed
    qed
    have hi: "\<forall>p. j1 < p \<and> p \<le> R \<longrightarrow> t \<le> key_at coords1 inc p"
    proof (intro allI impI)
      fix p assume p: "j1 < p \<and> p \<le> R"
      consider "j < p" | "p = j" | "p < j" by linarith
      then show "t \<le> key_at coords1 inc p"
      proof cases
        case 1
        then have "key_at coords1 inc p = key_at coords inc p"
          using k1(3)[of p] p "1.prems"(4) bj True by auto
        then show ?thesis using "1.prems"(10) p 1 by auto
      next
        case 2
        then show ?thesis using k1(2) "1.prems"(11) by simp
      next
        case 3
        then show ?thesis using dn(5)[of p] p by auto
      qed
    qed
    have "\<exists>idxs' coords' j'. ploop idxs1 coords1 inc t i1 j1 = Some (idxs', coords', j')
           \<and> lockstep idxs' coords' \<and> length idxs' = length idxs1
           \<and> rearr (L + 1) (R - 1) (items idxs1 coords1) (items idxs' coords')
           \<and> L \<le> j' \<and> j' < R
           \<and> (\<forall>p. L \<le> p \<and> p \<le> j' \<longrightarrow> key_at coords' inc p \<le> t)
           \<and> (\<forall>p. j' < p \<and> p \<le> R \<longrightarrow> t \<le> key_at coords' inc p)"
      by (rule "1.IH"[OF True _ _ up(1) dn(1) sw(2) inc])
         (use sw "1.prems" up dn lo hi True in auto)
    then obtain idxs' coords' j' where
      r: "ploop idxs1 coords1 inc t i1 j1 = Some (idxs', coords', j')"
        "lockstep idxs' coords'" "length idxs' = length idxs1"
        "rearr (L + 1) (R - 1) (items idxs1 coords1) (items idxs' coords')"
        "L \<le> j'" "j' < R"
        "\<forall>p. L \<le> p \<and> p \<le> j' \<longrightarrow> key_at coords' inc p \<le> t"
        "\<forall>p. j' < p \<and> p \<le> R \<longrightarrow> t \<le> key_at coords' inc p"
      by blast
    have "ploop idxs coords inc t i j = Some (idxs', coords', j')"
      using True sw(1) up(1) dn(1) r(1) by (subst ploop.simps) simp
    moreover have "rearr (L + 1) (R - 1) (items idxs coords) (items idxs' coords')"
      using rearr_trans[OF sw(4) r(4)] .
    ultimately show ?thesis using r sw(3) by auto
  qed
qed

lemma partition_pass_spec:
  assumes wf0: "lockstep idxs coords" and inc: "inc = 0 \<or> inc = 1"
    and b: "0 \<le> L0" "R0 < int (length idxs)" "L0 \<le> left" "left < right" "right \<le> R0"
      "L0 \<le> k" "k \<le> R0"
  shows "\<exists>idxs' coords' j. partition_pass idxs coords k left right inc = Some (idxs', coords', j)
           \<and> lockstep idxs' coords' \<and> length idxs' = length idxs
           \<and> rearr L0 R0 (items idxs coords) (items idxs' coords')
           \<and> left \<le> j \<and> j \<le> right
           \<and> (\<forall>p. left \<le> p \<and> p < j \<longrightarrow> key_at coords' inc p \<le> key_at coords' inc j)
           \<and> (\<forall>p. j < p \<and> p \<le> right \<longrightarrow> key_at coords' inc j \<le> key_at coords' inc p)"
proof -
  define n where "n = int (length idxs)"
  define t where "t = key_at coords inc k"
  have bl: "0 \<le> left" "left < n" and br: "0 \<le> right" "right < n" and bk: "0 \<le> k" "k < n"
    using b by (auto simp: n_def)
  have e0: "elem coords (2 * k + inc) = Some t"
    using elem_key[OF wf0 _ _ inc, of k] bk by (simp add: t_def n_def)
  \<comment> \<open>the pivot goes to \<open>left\<close>\<close>
  from swapItem_spec[OF wf0 bl[unfolded n_def] bk[unfolded n_def]] obtain idxs1 coords1 where
    s1: "swapItem idxs coords left k = Some (idxs1, coords1)" "lockstep idxs1 coords1"
      "length idxs1 = length idxs"
      "rearr L0 R0 (items idxs coords) (items idxs1 coords1)"
    and k1: "key_at coords1 inc left = t"
    using inc b unfolding t_def by (smt (verit, best))
  define cr where "cr = key_at coords1 inc right"
  have e1: "elem coords1 (2 * right + inc) = Some cr"
    using elem_key[OF s1(2) _ _ inc, of right] br s1(3) by (simp add: cr_def n_def)
  \<comment> \<open>the conditional swap with \<open>right\<close>\<close>
  have "\<exists>idxs2 coords2.
      (if cr > t then swapItem idxs1 coords1 left right else Some (idxs1, coords1)) = Some (idxs2, coords2)
      \<and> lockstep idxs2 coords2 \<and> length idxs2 = length idxs
      \<and> rearr L0 R0 (items idxs1 coords1) (items idxs2 coords2)
      \<and> t \<le> key_at coords2 inc left \<and> key_at coords2 inc right \<le> t
      \<and> (key_at coords2 inc left = t \<or> key_at coords2 inc right = t)"
  proof (cases "cr > t")
    case True
    from swapItem_spec[OF s1(2), of left right] bl br s1(3) obtain idxs2 coords2 where
      "swapItem idxs1 coords1 left right = Some (idxs2, coords2)" "lockstep idxs2 coords2"
      "length idxs2 = length idxs1"
      "rearr L0 R0 (items idxs1 coords1) (items idxs2 coords2)"
      "key_at coords2 inc left = key_at coords1 inc right"
      "key_at coords2 inc right = key_at coords1 inc left"
      using inc b unfolding n_def by (smt (verit, best))
    then show ?thesis using True k1 s1(3) by (auto simp: cr_def)
  next
    case False
    then show ?thesis using s1 k1 by (auto simp: cr_def)
  qed
  then obtain idxs2 coords2 where
    s2: "(if cr > t then swapItem idxs1 coords1 left right else Some (idxs1, coords1)) = Some (idxs2, coords2)"
      "lockstep idxs2 coords2" "length idxs2 = length idxs"
      "rearr L0 R0 (items idxs1 coords1) (items idxs2 coords2)"
    and k2: "t \<le> key_at coords2 inc left" "key_at coords2 inc right \<le> t"
      "key_at coords2 inc left = t \<or> key_at coords2 inc right = t"
    by blast
  \<comment> \<open>first iteration of the two-pointer loop\<close>
  from swapItem_spec[OF s2(2), of left right] bl br s2(3) obtain idxs3 coords3 where
    s3: "swapItem idxs2 coords2 left right = Some (idxs3, coords3)" "lockstep idxs3 coords3"
      "length idxs3 = length idxs2"
      "rearr L0 R0 (items idxs2 coords2) (items idxs3 coords3)"
    and k3': "key_at coords3 inc left = key_at coords2 inc right"
      "key_at coords3 inc right = key_at coords2 inc left"
    using inc b unfolding n_def by (smt (verit, best))
  have k3: "key_at coords3 inc left \<le> t" "t \<le> key_at coords3 inc right"
      "key_at coords3 inc left = t \<or> key_at coords3 inc right = t"
    using k2 k3' by auto
  have "\<exists>i1. scan_up coords3 inc t (left + 1) = Some i1 \<and> left + 1 \<le> i1 \<and> i1 \<le> right
          \<and> t \<le> key_at coords3 inc i1
          \<and> (\<forall>p. left + 1 \<le> p \<and> p < i1 \<longrightarrow> key_at coords3 inc p < t)"
    by (rule scan_up_spec[OF s3(2) inc]) (use bl br b s3(3) s2(3) k3 in \<open>auto simp: n_def\<close>)
  then obtain i1 where
    up: "scan_up coords3 inc t (left + 1) = Some i1" "left + 1 \<le> i1" "i1 \<le> right"
      "t \<le> key_at coords3 inc i1"
      "\<And>p. left + 1 \<le> p \<Longrightarrow> p < i1 \<Longrightarrow> key_at coords3 inc p < t"
    by blast
  have "\<exists>j1. scan_down coords3 inc t (right - 1) = Some j1 \<and> left \<le> j1 \<and> j1 \<le> right - 1
          \<and> key_at coords3 inc j1 \<le> t
          \<and> (\<forall>p. j1 < p \<and> p \<le> right - 1 \<longrightarrow> t < key_at coords3 inc p)"
    by (rule scan_down_spec[OF s3(2) inc]) (use bl br b s3(3) s2(3) k3 in \<open>auto simp: n_def\<close>)
  then obtain j1 where
    dn: "scan_down coords3 inc t (right - 1) = Some j1" "left \<le> j1" "j1 \<le> right - 1"
      "key_at coords3 inc j1 \<le> t"
      "\<And>p. j1 < p \<Longrightarrow> p \<le> right - 1 \<Longrightarrow> t < key_at coords3 inc p"
    by blast
  have lo: "\<forall>p. left \<le> p \<and> p < i1 \<longrightarrow> key_at coords3 inc p \<le> t"
  proof (intro allI impI)
    fix p assume "left \<le> p \<and> p < i1"
    then show "key_at coords3 inc p \<le> t"
      using up(5)[of p] k3(1) by (cases "p = left") auto
  qed
  have hi: "\<forall>p. j1 < p \<and> p \<le> right \<longrightarrow> t \<le> key_at coords3 inc p"
  proof (intro allI impI)
    fix p assume "j1 < p \<and> p \<le> right"
    then show "t \<le> key_at coords3 inc p"
      using dn(5)[of p] k3(2) by (cases "p = right") auto
  qed
  \<comment> \<open>the remaining iterations\<close>
  have "\<exists>idxs4 coords4 j'. ploop idxs3 coords3 inc t i1 j1 = Some (idxs4, coords4, j')
           \<and> lockstep idxs4 coords4 \<and> length idxs4 = length idxs3
           \<and> rearr (left + 1) (right - 1) (items idxs3 coords3) (items idxs4 coords4)
           \<and> left \<le> j' \<and> j' < right
           \<and> (\<forall>p. left \<le> p \<and> p \<le> j' \<longrightarrow> key_at coords4 inc p \<le> t)
           \<and> (\<forall>p. j' < p \<and> p \<le> right \<longrightarrow> t \<le> key_at coords4 inc p)"
    by (rule ploop_spec[OF s3(2) inc])
       (use bl br s3(3) s2(3) up dn lo hi in \<open>auto simp: n_def\<close>)
  then obtain idxs4 coords4 j' where
    s4: "ploop idxs3 coords3 inc t i1 j1 = Some (idxs4, coords4, j')"
      "lockstep idxs4 coords4" "length idxs4 = length idxs3"
      "rearr (left + 1) (right - 1) (items idxs3 coords3) (items idxs4 coords4)"
    and j': "left \<le> j'" "j' < right"
    and k4: "\<And>p. left \<le> p \<Longrightarrow> p \<le> j' \<Longrightarrow> key_at coords4 inc p \<le> t"
      "\<And>p. j' < p \<Longrightarrow> p \<le> right \<Longrightarrow> t \<le> key_at coords4 inc p"
    by blast
  have pl: "ploop idxs2 coords2 inc t left right = Some (idxs4, coords4, j')"
    using b(4) s3(1) up(1) dn(1) s4(1) by (subst ploop.simps) simp
  have len4: "length idxs4 = length idxs" using s4(3) s3(3) s2(3) by simp
  have r4: "rearr L0 R0 (items idxs coords) (items idxs4 coords4)"
    using rearr_trans[OF rearr_trans[OF rearr_trans[OF s1(4) s2(4)] s3(4)]
        rearr_mono[OF s4(4), of L0 R0]] b by simp
  have ends: "key_at coords4 inc left = key_at coords3 inc left"
       "key_at coords4 inc right = key_at coords3 inc right"
    using rearr_frame[OF s4(4), of left] rearr_frame[OF s4(4), of right]
      key_at_items[OF s4(2) _ _ inc, of left] key_at_items[OF s3(2) _ _ inc, of left]
      key_at_items[OF s4(2) _ _ inc, of right] key_at_items[OF s3(2) _ _ inc, of right]
      bl br s3(3) s2(3) len4
    by (auto simp: n_def)
  define cl where "cl = key_at coords4 inc left"
  have e4: "elem coords4 (2 * left + inc) = Some cl"
    using elem_key[OF s4(2) _ _ inc, of left] bl len4 by (simp add: cl_def n_def)
  have bj: "0 \<le> j'" "j' < n" "0 \<le> j' + 1" "j' + 1 < n" using j' bl br by auto
  show ?thesis
  proof (cases "cl = t")
    case True
    from swapItem_spec[OF s4(2), of left j'] bl bj len4 obtain idxs5 coords5 where
      s5: "swapItem idxs4 coords4 left j' = Some (idxs5, coords5)" "lockstep idxs5 coords5"
        "length idxs5 = length idxs4"
        "rearr L0 R0 (items idxs4 coords4) (items idxs5 coords5)"
      and k5: "key_at coords5 inc left = key_at coords4 inc j'"
        "key_at coords5 inc j' = key_at coords4 inc left"
        "\<And>p. 0 \<le> p \<Longrightarrow> p < n \<Longrightarrow> p \<noteq> left \<Longrightarrow> p \<noteq> j' \<Longrightarrow>
            key_at coords5 inc p = key_at coords4 inc p"
      using inc b j' unfolding n_def by (smt (verit, best))
    have pp: "partition_pass idxs coords k left right inc = Some (idxs5, coords5, j')"
      unfolding partition_pass_def using e0 s1(1) e1 s2(1) pl e4 True s5(1) by simp
    have kj: "key_at coords5 inc j' = t" using k5(2) True by (simp add: cl_def)
    have lo5: "\<forall>p. left \<le> p \<and> p < j' \<longrightarrow> key_at coords5 inc p \<le> key_at coords5 inc j'"
    proof (intro allI impI)
      fix p assume p: "left \<le> p \<and> p < j'"
      show "key_at coords5 inc p \<le> key_at coords5 inc j'"
      proof (cases "p = left")
        case True
        then show ?thesis using k5(1) k4(1)[of j'] j' kj by simp
      next
        case False
        then have "key_at coords5 inc p = key_at coords4 inc p"
          using k5(3)[of p] p bl bj by auto
        then show ?thesis using k4(1)[of p] p kj by simp
      qed
    qed
    have hi5: "\<forall>p. j' < p \<and> p \<le> right \<longrightarrow> key_at coords5 inc j' \<le> key_at coords5 inc p"
    proof (intro allI impI)
      fix p assume p: "j' < p \<and> p \<le> right"
      then have "key_at coords5 inc p = key_at coords4 inc p"
        using k5(3)[of p] j' bl br by auto
      then show "key_at coords5 inc j' \<le> key_at coords5 inc p"
        using k4(2)[of p] p kj by simp
    qed
    show ?thesis
      using pp s5(2,3) len4 rearr_trans[OF r4 s5(4)] j' lo5 hi5 by auto
  next
    case False
    then have kr: "key_at coords4 inc right = t" using k3(3) ends by (simp add: cl_def)
    from swapItem_spec[OF s4(2), of "j' + 1" right] br bj len4 obtain idxs5 coords5 where
      s5: "swapItem idxs4 coords4 (j' + 1) right = Some (idxs5, coords5)" "lockstep idxs5 coords5"
        "length idxs5 = length idxs4"
        "rearr L0 R0 (items idxs4 coords4) (items idxs5 coords5)"
      and k5: "key_at coords5 inc (j' + 1) = key_at coords4 inc right"
        "key_at coords5 inc right = key_at coords4 inc (j' + 1)"
        "\<And>p. 0 \<le> p \<Longrightarrow> p < n \<Longrightarrow> p \<noteq> j' + 1 \<Longrightarrow> p \<noteq> right \<Longrightarrow>
            key_at coords5 inc p = key_at coords4 inc p"
      using inc b j' unfolding n_def by (smt (verit, best))
    have pp: "partition_pass idxs coords k left right inc = Some (idxs5, coords5, j' + 1)"
      unfolding partition_pass_def using e0 s1(1) e1 s2(1) pl e4 False s5(1) by simp
    have kj: "key_at coords5 inc (j' + 1) = t" using k5(1) kr by simp
    have lo5: "\<forall>p. left \<le> p \<and> p < j' + 1 \<longrightarrow> key_at coords5 inc p \<le> key_at coords5 inc (j' + 1)"
    proof (intro allI impI)
      fix p assume p: "left \<le> p \<and> p < j' + 1"
      then have "key_at coords5 inc p = key_at coords4 inc p"
        using k5(3)[of p] j' bl br by auto
      then show "key_at coords5 inc p \<le> key_at coords5 inc (j' + 1)"
        using k4(1)[of p] p kj by simp
    qed
    have hi5: "\<forall>p. j' + 1 < p \<and> p \<le> right \<longrightarrow> key_at coords5 inc (j' + 1) \<le> key_at coords5 inc p"
    proof (intro allI impI)
      fix p assume p: "j' + 1 < p \<and> p \<le> right"
      show "key_at coords5 inc (j' + 1) \<le> key_at coords5 inc p"
      proof (cases "p = right")
        case True
        then show ?thesis using k5(2) k4(2)[of "j' + 1"] j' kj by simp
      next
        case False
        then have "key_at coords5 inc p = key_at coords4 inc p"
          using k5(3)[of p] p bl br j' by auto
        then show ?thesis using k4(2)[of p] p kj by simp
      qed
    qed
    show ?thesis
      using pp s5(2,3) len4 rearr_trans[OF r4 s5(4)] j' lo5 hi5 by auto
  qed
qed

lemma bracket_bounds:
  assumes "right - left > 600"
  shows "left \<le> fst (bracket k left right)" "snd (bracket k left right) \<le> right"
    "snd (bracket k left right) - fst (bracket k left right) < right - left"
proof -
  define n where "n = right - left + 1"
  define m where "m = k - left + 1"
  define z where "z = ln (real_of_int n)"
  define s where "s = 0.5 * exp (2.0 * z / 3.0)"
  define sd where "sd = 0.5 * sqrt (z * s * (real_of_int n - s) / real_of_int n)
     * (if real_of_int m - real_of_int n / 2.0 < 0 then - 1.0 else 1.0)"
  define B where "B = real_of_int k - real_of_int m * s / real_of_int n + sd"
  define A where "A = real_of_int k + real_of_int (n - m) * s / real_of_int n + sd"
  have br: "bracket k left right = (iMax left (floor_kd B), iMin right (floor_kd A))"
    unfolding bracket_def Let_def n_def[symmetric] m_def[symmetric] z_def[symmetric]
      s_def[symmetric] sd_def[symmetric] B_def[symmetric] A_def[symmetric] ..
  show "left \<le> fst (bracket k left right)" "snd (bracket k left right) \<le> right"
    by (auto simp: br iMax_def iMin_def)
  have n: "n > 601" using assms by (simp add: n_def)
  then have rn: "real_of_int n > 601" by linarith
  have z0: "0 \<le> z" unfolding z_def using rn by simp
  have "exp (2.0 * z / 3.0) \<le> exp z" using z0 by simp
  also have "exp z = real_of_int n" unfolding z_def using rn by simp
  finally have s: "s \<le> real_of_int n / 2" by (simp add: s_def)
  have "A - B = real_of_int (n - m) * s / real_of_int n + real_of_int m * s / real_of_int n"
    by (simp add: A_def B_def)
  also have "\<dots> = (real_of_int n * s) / real_of_int n"
    by (simp add: add_divide_distrib [symmetric] distrib_right [symmetric])
  also have "\<dots> = s" using rn by simp
  finally have AB: "A - B = s" .
  have "real_of_int \<lfloor>A\<rfloor> \<le> A" "B < real_of_int \<lfloor>B\<rfloor> + 1" by linarith+
  then have "real_of_int \<lfloor>A\<rfloor> - real_of_int \<lfloor>B\<rfloor> < s + 1" using AB by linarith
  then have "real_of_int (\<lfloor>A\<rfloor> - \<lfloor>B\<rfloor>) < s + 1" by simp
  also have "\<dots> \<le> real_of_int n / 2 + 1" using s by simp
  also have "\<dots> \<le> real_of_int (n - 1)" using rn by simp
  finally have "\<lfloor>A\<rfloor> - \<lfloor>B\<rfloor> < n - 1" by linarith
  then show "snd (bracket k left right) - fst (bracket k left right) < right - left"
    by (auto simp: br iMax_def iMin_def floor_kd_def n_def)
qed

lemma sselect_empty: "right \<le> left \<Longrightarrow> sselect idxs coords k left right inc = Some (Some (idxs, coords))"
  by (subst sselect.simps) simp

lemma sselect_spec:
  assumes "lockstep idxs coords" "inc = 0 \<or> inc = 1"
    "0 \<le> L0" "R0 < int (length idxs)" "L0 \<le> left" "right \<le> R0" "L0 \<le> k" "k \<le> R0"
  shows "\<exists>idxs' coords'. sselect idxs coords k left right inc = Some (Some (idxs', coords'))
           \<and> lockstep idxs' coords' \<and> length idxs' = length idxs
           \<and> rearr L0 R0 (items idxs coords) (items idxs' coords')
           \<and> (left \<le> k \<and> k \<le> right \<longrightarrow> part coords' inc left k right)"
  using assms
proof (induction "nat (right - left)" arbitrary: idxs coords left right L0 R0 rule: less_induct)
  case less
  note wf0 = \<open>lockstep idxs coords\<close> and inc = \<open>inc = 0 \<or> inc = 1\<close>
  show ?case
  proof (cases "right > left")
    case False
    then have "sselect idxs coords k left right inc = Some (Some (idxs, coords))"
      by (simp add: sselect_empty)
    moreover have "left \<le> k \<and> k \<le> right \<longrightarrow> part coords inc left k right"
      using False by (auto simp: part_def)
    ultimately show ?thesis using wf0 by auto
  next
    case True
    \<comment> \<open>the sampling pre-pass\<close>
    have "\<exists>idxs0 coords0.
        (if right - left > 600
         then sselect idxs coords k (fst (bracket k left right)) (snd (bracket k left right)) inc
         else Some (Some (idxs, coords))) = Some (Some (idxs0, coords0))
        \<and> lockstep idxs0 coords0 \<and> length idxs0 = length idxs
        \<and> rearr L0 R0 (items idxs coords) (items idxs0 coords0)"
    proof (cases "right - left > 600")
      case False
      then show ?thesis using wf0 by auto
    next
      case big: True
      note bb = bracket_bounds[OF big, of k]
      have "\<exists>idxs' coords'. sselect idxs coords k (fst (bracket k left right))
               (snd (bracket k left right)) inc = Some (Some (idxs', coords'))
           \<and> lockstep idxs' coords' \<and> length idxs' = length idxs
           \<and> rearr L0 R0 (items idxs coords) (items idxs' coords')
           \<and> (fst (bracket k left right) \<le> k \<and> k \<le> snd (bracket k left right) \<longrightarrow>
                part coords' inc (fst (bracket k left right)) k (snd (bracket k left right)))"
        by (rule less.hyps[OF _ wf0 inc]) (use bb less.prems True in auto)
      then show ?thesis using big by auto
    qed
    then obtain idxs0 coords0 where
      s0: "(if right - left > 600
         then sselect idxs coords k (fst (bracket k left right)) (snd (bracket k left right)) inc
         else Some (Some (idxs, coords))) = Some (Some (idxs0, coords0))"
        "lockstep idxs0 coords0" "length idxs0 = length idxs"
        "rearr L0 R0 (items idxs coords) (items idxs0 coords0)"
      by blast
    \<comment> \<open>one partition pass; the frame is as tight as the position of \<open>k\<close> allows\<close>
    define L1 where "L1 = (if left \<le> k \<and> k \<le> right then left else L0)"
    define R1 where "R1 = (if left \<le> k \<and> k \<le> right then right else R0)"
    have b1: "0 \<le> L1" "R1 < int (length idxs0)" "L1 \<le> left" "right \<le> R1" "L1 \<le> k" "k \<le> R1"
      "L0 \<le> L1" "R1 \<le> R0"
      using less.prems s0(3) by (auto simp: L1_def R1_def)
    from partition_pass_spec[OF s0(2) inc b1(1,2,3) True b1(4,5,6)]
    obtain idxs1 coords1 j where
      s1: "partition_pass idxs0 coords0 k left right inc = Some (idxs1, coords1, j)"
        "lockstep idxs1 coords1" "length idxs1 = length idxs0"
        "rearr L1 R1 (items idxs0 coords0) (items idxs1 coords1)"
      and j: "left \<le> j" "j \<le> right"
      and p1: "\<And>p. left \<le> p \<Longrightarrow> p < j \<Longrightarrow> key_at coords1 inc p \<le> key_at coords1 inc j"
        "\<And>p. j < p \<Longrightarrow> p \<le> right \<Longrightarrow> key_at coords1 inc j \<le> key_at coords1 inc p"
      by blast
    define left' where "left' = (if j \<le> k then j + 1 else left)"
    define right' where "right' = (if k \<le> j then j - 1 else right)"
    have unfold: "sselect idxs coords k left right inc = sselect idxs1 coords1 k left' right' inc"
      using True s0(1) s1(1) by (subst sselect.simps) (simp add: left'_def right'_def)
    have dec: "nat (right' - left') < nat (right - left)"
      using j True by (auto simp: left'_def right'_def)
    define L2 where "L2 = (if left \<le> k \<and> k \<le> right \<and> j \<noteq> k then left' else L1)"
    define R2 where "R2 = (if left \<le> k \<and> k \<le> right \<and> j \<noteq> k then right' else R1)"
    have b2: "0 \<le> L2" "R2 < int (length idxs1)" "L2 \<le> left'" "right' \<le> R2" "L2 \<le> k" "k \<le> R2"
      "L1 \<le> L2" "R2 \<le> R1"
      using b1 j s1(3) by (auto simp: L2_def R2_def left'_def right'_def)
    from less.hyps[OF dec s1(2) inc b2(1,2,3,4,5,6)] obtain idxs2 coords2 where
      s2: "sselect idxs1 coords1 k left' right' inc = Some (Some (idxs2, coords2))"
        "lockstep idxs2 coords2" "length idxs2 = length idxs1"
        "rearr L2 R2 (items idxs1 coords1) (items idxs2 coords2)"
        "left' \<le> k \<and> k \<le> right' \<longrightarrow> part coords2 inc left' k right'"
      by blast
    have r02: "rearr L0 R0 (items idxs coords) (items idxs2 coords2)"
      using rearr_trans[OF s0(4) rearr_trans[OF rearr_mono[OF s1(4) b1(7,8)]
            rearr_mono[OF s2(4), of L0 R0]]] b1 b2 by simp
    have part: "part coords2 inc left k right" if kin: "left \<le> k" "k \<le> right"
    proof -
      have len1: "length idxs1 = length idxs" using s1(3) s0(3) by simp
      have n: "0 \<le> left" "right < int (length idxs1)"
        using less.prems kin b1 s1(3) by (auto simp: L1_def R1_def)
      have key12: "key_at coords2 inc p = ikey inc (items idxs2 coords2 ! nat p)"
                  "key_at coords1 inc p = ikey inc (items idxs1 coords1 ! nat p)"
        if "left \<le> p" "p \<le> right" for p
        using key_at_items[OF s2(2) _ _ inc, of p] key_at_items[OF s1(2) _ _ inc, of p]
          that n s2(3) by auto
      have frame: "key_at coords2 inc p = key_at coords1 inc p"
        if "left \<le> p" "p \<le> right" "p < L2 \<or> R2 < p" for p
        using rearr_frame[OF s2(4), of p] key12[OF that(1,2)] that n by auto
      consider "j < k" | "j = k" | "k < j" by linarith
      then show ?thesis
      proof cases
        case 1
        then have lr: "left' = j + 1" "right' = right" "L2 = j + 1" "R2 = right"
          using kin by (auto simp: left'_def right'_def L2_def R2_def)
        have pk: "part coords2 inc (j + 1) k right" using s2(5) 1 kin lr by simp
        have "ikey inc (items idxs1 coords1 ! nat p) \<ge> key_at coords1 inc j"
          if "j + 1 \<le> p" "p \<le> right" for p
          using p1(2)[of p] key12(2)[of p] that j by auto
        then have "ikey inc (items idxs2 coords2 ! nat k) \<ge> key_at coords1 inc j"
          using rearr_range_all[OF s2(4)[unfolded lr], of "\<lambda>it. ikey inc it \<ge> key_at coords1 inc j" k]
            n j 1 kin by auto
        then have kk: "key_at coords1 inc j \<le> key_at coords2 inc k"
          using key12(1)[of k] kin by simp
        have "key_at coords2 inc p \<le> key_at coords2 inc k" if "left \<le> p" "p < k" for p
        proof (cases "p \<le> j")
          case True
          have "key_at coords2 inc p = key_at coords1 inc p"
            using frame[of p] that True kin lr by auto
          moreover have "key_at coords1 inc p \<le> key_at coords1 inc j"
            using p1(1)[of p] that True by (cases "p = j") auto
          ultimately show ?thesis using kk by simp
        next
          case False
          then show ?thesis using pk that by (auto simp: part_def)
        qed
        then show ?thesis using pk 1 by (auto simp: part_def)
      next
        case 2
        then have "sselect idxs1 coords1 k left' right' inc = Some (Some (idxs1, coords1))"
          by (intro sselect_empty) (auto simp: left'_def right'_def)
        then have "coords2 = coords1" using s2(1) by simp
        then show ?thesis using p1 2 by (auto simp: part_def)
      next
        case 3
        then have lr: "left' = left" "right' = j - 1" "L2 = left" "R2 = j - 1"
          using kin by (auto simp: left'_def right'_def L2_def R2_def)
        have pk: "part coords2 inc left k (j - 1)" using s2(5) 3 kin lr by simp
        have "ikey inc (items idxs1 coords1 ! nat p) \<le> key_at coords1 inc j"
          if "left \<le> p" "p \<le> j - 1" for p
          using p1(1)[of p] key12(2)[of p] that j by auto
        then have "ikey inc (items idxs2 coords2 ! nat k) \<le> key_at coords1 inc j"
          using rearr_range_all[OF s2(4)[unfolded lr], of "\<lambda>it. ikey inc it \<le> key_at coords1 inc j" k]
            n j 3 kin by auto
        then have kk: "key_at coords2 inc k \<le> key_at coords1 inc j"
          using key12(1)[of k] kin by simp
        have "key_at coords2 inc k \<le> key_at coords2 inc p" if "k < p" "p \<le> right" for p
        proof (cases "j \<le> p")
          case True
          have "key_at coords2 inc p = key_at coords1 inc p"
            using frame[of p] that True kin lr by auto
          moreover have "key_at coords1 inc j \<le> key_at coords1 inc p"
            using p1(2)[of p] that True by (cases "p = j") auto
          ultimately show ?thesis using kk by simp
        next
          case False
          then show ?thesis using pk that by (auto simp: part_def)
        qed
        then show ?thesis using pk 3 by (auto simp: part_def)
      qed
    qed
    show ?thesis
      using unfold s2(1,2,3) s1(3) s0(3) r02 part by auto
  qed
qed

section \<open>The recursive builder\<close>

lemma floor_mid: "floor_kd (real_of_int (left + right) / 2.0) = (left + right) div 2"
proof -
  have "\<lfloor>real_of_int (left + right) / real_of_int 2\<rfloor> = (left + right) div 2"
    by (rule floor_divide_of_int_eq)
  then show ?thesis by (simp add: floor_kd_def)
qed

lemma floor_mid': "floor_kd ((real_of_int left + real_of_int right) / 2) = (left + right) div 2"
  using floor_mid[of left right] by simp

lemma kd_inv_frame:
  assumes "kd_inv coords ns left right depth"
    "\<And>p a. left \<le> p \<Longrightarrow> p \<le> right \<Longrightarrow> a = 0 \<or> a = 1 \<Longrightarrow> key_at coords' a p = key_at coords a p"
  shows "kd_inv coords' ns left right depth"
  using assms
proof (induction rule: kd_inv.induct)
  case (leaf right left depth)
  then show ?case by (simp add: kd_inv.leaf)
next
  case (node right left m a depth)
  have a: "a = 0 \<or> a = 1" using node.hyps(3) by auto
  have big: "left \<le> right \<or> (m - 1 < left \<and> right < m + 1)"
    using node.hyps(2) by auto
  have m: "left \<le> right \<Longrightarrow> left \<le> m \<and> m \<le> right" using node.hyps(2) by auto
  show ?case
  proof (cases "left \<le> right")
    case True
    show ?thesis
    proof (rule kd_inv.node[OF node.hyps(1,2,3)])
      show "\<forall>i. left \<le> i \<and> i \<le> m - 1 \<longrightarrow> key_at coords' a i \<le> key_at coords' a m"
        using node.hyps(4) node.prems[OF _ _ a] m[OF True] by auto
      show "\<forall>i. m + 1 \<le> i \<and> i \<le> right \<longrightarrow> key_at coords' a m \<le> key_at coords' a i"
        using node.hyps(5) node.prems[OF _ _ a] m[OF True] by auto
      show "kd_inv coords' ns left (m - 1) (depth + 1)"
        using node.prems m[OF True] by (intro node.IH) auto
      show "kd_inv coords' ns (m + 1) right (depth + 1)"
        using node.prems m[OF True] by (intro node.IH) auto
    qed
  next
    case False
    then have e: "m - 1 < left" "right < m + 1" using node.hyps(2) by auto
    show ?thesis
    proof (rule kd_inv.node[OF node.hyps(1,2,3)])
      show "\<forall>i. left \<le> i \<and> i \<le> m - 1 \<longrightarrow> key_at coords' a i \<le> key_at coords' a m"
        using e by auto
      show "\<forall>i. m + 1 \<le> i \<and> i \<le> right \<longrightarrow> key_at coords' a m \<le> key_at coords' a i"
        using e by auto
      show "kd_inv coords' ns left (m - 1) (depth + 1)"
        using e by (intro node.IH) auto
      show "kd_inv coords' ns (m + 1) right (depth + 1)"
        using e by (intro node.IH) auto
    qed
  qed
qed

lemma rearr_keys_frame:
  assumes "rearr l r (items idxs coords) (items idxs' coords')" "lockstep idxs coords" "lockstep idxs' coords'"
    "length idxs' = length idxs" "0 \<le> p" "p < int (length idxs)" "p < l \<or> r < p" "a = 0 \<or> a = 1"
  shows "key_at coords' a p = key_at coords a p"
  using rearr_frame[OF assms(1), of p] key_at_items[OF assms(2) assms(5,6,8)]
    key_at_items[OF assms(3) assms(5) _ assms(8)] assms(4,5,6,7)
  by auto

lemma rearr_keys_all:
  assumes "rearr l r (items idxs coords) (items idxs' coords')" "lockstep idxs coords" "lockstep idxs' coords'"
    "length idxs' = length idxs" "0 \<le> l" "r < int (length idxs)" "a = 0 \<or> a = 1"
    and P: "\<And>p. l \<le> p \<Longrightarrow> p \<le> r \<Longrightarrow> P (key_at coords a p)"
    and q: "l \<le> q" "q \<le> r"
  shows "P (key_at coords' a q)"
proof -
  have "P (ikey a (items idxs coords ! nat p))" if "l \<le> p" "p \<le> r" for p
    using P[OF that] key_at_items[OF assms(2) _ _ assms(7), of p] that assms(5,6) by auto
  then have "P (ikey a (items idxs' coords' ! nat q))"
    using rearr_range_all[OF assms(1), of "\<lambda>it. P (ikey a it)" q] assms(5,6) q by auto
  then show ?thesis
    using key_at_items[OF assms(3) _ _ assms(7), of q] q assms(4,5,6) by auto
qed

lemma sort_kd_spec:
  assumes "lockstep idxs coords" "- 1 \<le> ns" "0 \<le> left" "right < int (length idxs)" "left \<le> right + 1"
    "0 \<le> depth"
  shows "\<exists>idxs' coords'. sort_kd idxs coords ns left right depth = Some (Some (idxs', coords'))
           \<and> lockstep idxs' coords' \<and> length idxs' = length idxs
           \<and> rearr left right (items idxs coords) (items idxs' coords')
           \<and> kd_inv coords' ns left right depth"
  using assms
proof (induction "nat (right - left + 1)" arbitrary: idxs coords left right depth rule: less_induct)
  case less
  note wf0 = \<open>lockstep idxs coords\<close>
  show ?case
  proof (cases "right - left \<le> ns")
    case True
    then have "sort_kd idxs coords ns left right depth = Some (Some (idxs, coords))"
      by (subst sort_kd.simps) simp
    then show ?thesis using wf0 True by (auto intro: kd_inv.leaf)
  next
    case False
    define m where "m = (left + right) div 2"
    define a where "a = depth mod 2"
    have a: "a = 0 \<or> a = 1" "depth smod 2 = a"
      using less.prems(6) by (auto simp: a_def signed_modulo_int_def sgn_if)
    have lr: "left \<le> right" using False less.prems(2) by simp
    have m: "left \<le> m" "m \<le> right" using lr by (auto simp: m_def)
    from sselect_spec[OF wf0 a(1) less.prems(3,4) order_refl order_refl m]
    obtain idxs1 coords1 where
      s1: "sselect idxs coords m left right a = Some (Some (idxs1, coords1))"
        "lockstep idxs1 coords1" "length idxs1 = length idxs"
        "rearr left right (items idxs coords) (items idxs1 coords1)"
        "part coords1 a left m right"
      using m by blast
    have "\<exists>idxs' coords'. sort_kd idxs1 coords1 ns left (m - 1) (depth + 1) = Some (Some (idxs', coords'))
           \<and> lockstep idxs' coords' \<and> length idxs' = length idxs1
           \<and> rearr left (m - 1) (items idxs1 coords1) (items idxs' coords')
           \<and> kd_inv coords' ns left (m - 1) (depth + 1)"
      by (rule less.hyps[OF _ s1(2) less.prems(2)]) (use m less.prems s1(3) in auto)
    then obtain idxs2 coords2 where
      s2: "sort_kd idxs1 coords1 ns left (m - 1) (depth + 1) = Some (Some (idxs2, coords2))"
        "lockstep idxs2 coords2" "length idxs2 = length idxs1"
        "rearr left (m - 1) (items idxs1 coords1) (items idxs2 coords2)"
        "kd_inv coords2 ns left (m - 1) (depth + 1)"
      by blast
    have "\<exists>idxs' coords'. sort_kd idxs2 coords2 ns (m + 1) right (depth + 1) = Some (Some (idxs', coords'))
           \<and> lockstep idxs' coords' \<and> length idxs' = length idxs2
           \<and> rearr (m + 1) right (items idxs2 coords2) (items idxs' coords')
           \<and> kd_inv coords' ns (m + 1) right (depth + 1)"
      by (rule less.hyps[OF _ s2(2) less.prems(2)]) (use m less.prems s1(3) s2(3) in auto)
    then obtain idxs3 coords3 where
      s3: "sort_kd idxs2 coords2 ns (m + 1) right (depth + 1) = Some (Some (idxs3, coords3))"
        "lockstep idxs3 coords3" "length idxs3 = length idxs2"
        "rearr (m + 1) right (items idxs2 coords2) (items idxs3 coords3)"
        "kd_inv coords3 ns (m + 1) right (depth + 1)"
      by blast
    have run: "sort_kd idxs coords ns left right depth = Some (Some (idxs3, coords3))"
      using False s1(1) s2(1) s3(1)
      by (subst sort_kd.simps) (simp add: floor_mid' m_def[symmetric] a(2))
    have len: "length idxs2 = length idxs" "length idxs3 = length idxs"
      using s1(3) s2(3) s3(3) by auto
    have r: "rearr left right (items idxs coords) (items idxs3 coords3)"
      using rearr_trans[OF s1(4) rearr_trans[OF rearr_mono[OF s2(4), of left right]
            rearr_mono[OF s3(4), of left right]]] m by simp
    have bm: "0 \<le> m" "m < int (length idxs)" using m less.prems by auto
    have km2: "key_at coords2 a m = key_at coords1 a m"
      using rearr_keys_frame[OF s2(4) s1(2) s2(2) s2(3), of m a] bm a(1) s1(3) by auto
    have km3: "key_at coords3 a m = key_at coords1 a m"
      using rearr_keys_frame[OF s3(4) s2(2) s3(2) s3(3), of m a] bm a(1) len km2 by auto
    have lo: "key_at coords3 a p \<le> key_at coords3 a m" if "left \<le> p" "p \<le> m - 1" for p
    proof -
      have "key_at coords2 a p \<le> key_at coords1 a m"
        by (rule rearr_keys_all[OF s2(4) s1(2) s2(2) s2(3) _ _ a(1), where P = "\<lambda>v. v \<le> key_at coords1 a m"])
           (use s1(5) that less.prems bm s1(3) in \<open>auto simp: part_def\<close>)
      moreover have "key_at coords3 a p = key_at coords2 a p"
        using rearr_keys_frame[OF s3(4) s2(2) s3(2) s3(3), of p a] that bm a(1) len less.prems
        by auto
      ultimately show ?thesis using km3 by simp
    qed
    have hi: "key_at coords3 a m \<le> key_at coords3 a p" if "m + 1 \<le> p" "p \<le> right" for p
    proof -
      have "key_at coords1 a m \<le> key_at coords2 a q" if "m + 1 \<le> q" "q \<le> right" for q
        using rearr_keys_frame[OF s2(4) s1(2) s2(2) s2(3), of q a] that bm a(1) s1(3) s1(5)
          less.prems by (auto simp: part_def)
      then have "key_at coords1 a m \<le> key_at coords3 a p"
        by (intro rearr_keys_all[OF s3(4) s2(2) s3(2) s3(3) _ _ a(1), where P = "\<lambda>v. key_at coords1 a m \<le> v"])
           (use that less.prems bm len in auto)
      then show ?thesis using km3 by simp
    qed
    have kl: "kd_inv coords3 ns left (m - 1) (depth + 1)"
    proof (rule kd_inv_frame[OF s2(5)])
      fix p a' assume "left \<le> p" "p \<le> m - 1" "a' = 0 \<or> a' = (1::int)"
      then show "key_at coords3 a' p = key_at coords2 a' p"
        using rearr_keys_frame[OF s3(4) s2(2) s3(2) s3(3), of p a'] bm len less.prems by auto
    qed
    have "kd_inv coords3 ns left right depth"
      by (rule kd_inv.node[OF False m_def a_def _ _ kl s3(5)]) (use lo hi in auto)
    then show ?thesis using run s3(2) len r by auto
  qed
qed

section \<open>Rank of the selected element\<close>

lemma sort_nth_pivot:
  fixes xs :: "real list"
  assumes "q < length xs" "\<And>i. i < q \<Longrightarrow> xs ! i \<le> xs ! q"
    "\<And>i. q < i \<Longrightarrow> i < length xs \<Longrightarrow> xs ! q \<le> xs ! i"
  shows "sort xs ! q = xs ! q"
proof -
  let ?A = "take q xs" and ?B = "drop (Suc q) xs"
  let ?ys = "sort ?A @ xs ! q # sort ?B"
  have xs: "xs = ?A @ xs ! q # ?B" using assms(1) by (rule id_take_nth_drop)
  have A: "a \<le> xs ! q" if "a \<in> set ?A" for a
    using that assms(1,2) by (auto simp: in_set_conv_nth)
  have B: "xs ! q \<le> b" if "b \<in> set ?B" for b
  proof -
    from that obtain i where "i < length ?B" "b = ?B ! i" by (auto simp: in_set_conv_nth)
    then show ?thesis using assms(3)[of "Suc q + i"] assms(1) by auto
  qed
  have "sorted ?ys"
    using A B by (fastforce simp: sorted_append)
  moreover have "mset ?ys = mset xs"
    by (subst (3) xs) simp
  ultimately have "sort xs = ?ys" by (metis properties_for_sort)
  moreover have "length (sort ?A) = q" using assms(1) by simp
  ultimately show ?thesis by (metis nth_append_length)
qed

lemma keys_slice:
  assumes "lockstep idxs coords" "0 \<le> left" "right < int (length idxs)" "inc = 0 \<or> inc = 1"
  shows "map (key_at coords inc) [left..right] = map (ikey inc) (slice left right (items idxs coords))"
proof (rule nth_equalityI)
  show "length (map (key_at coords inc) [left..right])
      = length (map (ikey inc) (slice left right (items idxs coords)))"
    using assms by (simp add: length_slice)
next
  fix i assume "i < length (map (key_at coords inc) [left..right])"
  then have i: "int i < right + 1 - left" by simp
  then have p: "left \<le> left + int i" "left + int i \<le> right" by auto
  have "slice left right (items idxs coords) ! nat (left + int i - left) = items idxs coords ! nat (left + int i)"
    by (rule nth_slice[OF assms(2) p]) (use assms in simp)
  then have "slice left right (items idxs coords) ! i = items idxs coords ! nat (left + int i)"
    by simp
  moreover have "key_at coords inc (left + int i) = ikey inc (items idxs coords ! nat (left + int i))"
    by (rule key_at_items[OF assms(1) _ _ assms(4)]) (use p assms in auto)
  ultimately show "map (key_at coords inc) [left..right] ! i
      = map (ikey inc) (slice left right (items idxs coords)) ! i"
    using i assms by (simp add: length_slice)
qed

lemma rank_of_part:
  assumes "lockstep idxs coords" "lockstep idxs' coords'" "length idxs' = length idxs"
    "rearr left right (items idxs coords) (items idxs' coords')"
    "part coords' inc left k right" "inc = 0 \<or> inc = 1"
    "0 \<le> left" "left \<le> k" "k \<le> right" "right < int (length idxs)"
  shows "sort (map (key_at coords inc) [left..right]) ! nat (k - left) = key_at coords' inc k"
proof -
  let ?ks = "map (key_at coords inc) [left..right]"
  let ?ks' = "map (key_at coords' inc) [left..right]"
  have "mset ?ks' = mset ?ks"
    using keys_slice[OF assms(1,7,10,6)] keys_slice[OF assms(2,7) _ assms(6)] assms(3)
      rearr_slice_mset[OF assms(4,7)] assms(8,9,10)
    by (metis (no_types, lifting) length_items mset_map add_increasing2 zero_less_one_class.zero_le_one order_trans)
  then have "sort ?ks = sort ?ks'" by (metis properties_for_sort sorted_sort mset_sort)
  moreover have "sort ?ks' ! nat (k - left) = ?ks' ! nat (k - left)"
  proof (rule sort_nth_pivot)
    show "nat (k - left) < length ?ks'" using assms(8,9) by simp
  next
    fix i assume i: "i < nat (k - left)"
    then have "left \<le> left + int i" "left + int i < k" by auto
    then have "key_at coords' inc (left + int i) \<le> key_at coords' inc k"
      using assms(5) by (simp add: part_def)
    then show "?ks' ! i \<le> ?ks' ! nat (k - left)"
      using i assms(8,9) by simp
  next
    fix i assume i: "nat (k - left) < i" "i < length ?ks'"
    then have "k < left + int i" "left + int i \<le> right" by auto
    then have "key_at coords' inc k \<le> key_at coords' inc (left + int i)"
      using assms(5) by (simp add: part_def)
    then show "?ks' ! nat (k - left) \<le> ?ks' ! i"
      using i assms(8,9) by simp
  qed
  moreover have "?ks' ! nat (k - left) = key_at coords' inc k" using assms(8,9) by simp
  ultimately show ?thesis by simp
qed

text \<open>
  Claim C5. For arrays in lockstep (\<open>Coords\<close> twice as long as \<open>Idxs\<close>), an axis
  \<open>inc\<close> of 0 or 1 and \<open>0 \<le> left \<le> k \<le> right < len(Idxs)\<close>, the call
  \<open>sselect(Idxs, Coords, k, left, right, inc)\<close> returns (it neither panics nor runs forever,
  whatever the values, equal ones included). The items (index entry with its two
  coordinates) outside \<open>[left, right]\<close> stay where they are and the items inside are
  permuted as whole items (\<open>rearr\<close>); every element left of \<open>k\<close> in the range is \<open>\<le>\<close>
  the element at \<open>k\<close> and every element right of it is \<open>\<ge>\<close> (\<open>part\<close>); and the value at
  \<open>k\<close> is the one that sorting the axis values of the original range puts at rank
  \<open>k - left\<close>.
\<close>

theorem sselect_rank_partition:
  assumes "length coords = 2 * length idxs" "inc = 0 \<or> inc = 1"
    "0 \<le> left" "left \<le> k" "k \<le> right" "right < int (length idxs)"
  shows "\<exists>idxs' coords'. sselect idxs coords k left right inc = Some (Some (idxs', coords'))
           \<and> length idxs' = length idxs \<and> length coords' = length coords
           \<and> rearr left right (items idxs coords) (items idxs' coords')
           \<and> part coords' inc left k right
           \<and> key_at coords' inc k = sort (map (key_at coords inc) [left..right]) ! nat (k - left)"
proof -
  have wf0: "lockstep idxs coords" using assms(1) by (simp add: lockstep_def)
  from sselect_spec[OF wf0 assms(2,3,6) order_refl order_refl assms(4,5)]
  obtain idxs' coords' where
    s: "sselect idxs coords k left right inc = Some (Some (idxs', coords'))"
      "lockstep idxs' coords'" "length idxs' = length idxs"
      "rearr left right (items idxs coords) (items idxs' coords')"
      "part coords' inc left k right"
    using assms(4,5) by blast
  have "sort (map (key_at coords inc) [left..right]) ! nat (k - left) = key_at coords' inc k"
    by (rule rank_of_part[OF wf0 s(2,3,4,5) assms(2,3,4,5,6)])
  moreover have "length coords' = length coords" using s(2,3) assms(1) by (simp add: lockstep_def)
  ultimately show ?thesis using s by auto
qed

theorem sselect_rank_partition_witness:
  "length [5, 1, 5, 2, 5, 3, 5, 4 :: real] = 2 * length [0, 1, 2, 3 :: int]
   \<and> ((0::int) = 0 \<or> (0::int) = 1) \<and> (0::int) \<le> 0 \<and> (0::int) \<le> 1 \<and> (1::int) \<le> 3
   \<and> (3::int) < int (length [0, 1, 2, 3 :: int])
   \<and> (\<exists>idxs' coords'.
         sselect [0, 1, 2, 3] [5, 1, 5, 2, 5, 3, 5, 4] 1 0 3 0 = Some (Some (idxs', coords'))
         \<and> length idxs' = length [0, 1, 2, 3 :: int]
         \<and> length coords' = length [5, 1, 5, 2, 5, 3, 5, 4 :: real]
         \<and> rearr 0 3 (items [0, 1, 2, 3] [5, 1, 5, 2, 5, 3, 5, 4]) (items idxs' coords')
         \<and> part coords' 0 0 1 3
         \<and> key_at coords' 0 1
             = sort (map (key_at [5, 1, 5, 2, 5, 3, 5, 4] 0) [0..3]) ! nat (1 - 0))"
  using sselect_rank_partition [of "[5, 1, 5, 2, 5, 3, 5, 4]" "[0, 1, 2, 3]" 0 0 1 3]
  by simp

section \<open>Construction\<close>

lemma init_coords_length:
  "length (concat (map (\<lambda>v. case Coordinates v of (x, y) \<Rightarrow> [x, y]) points)) = 2 * length points"
  by (induction points) (auto simp: Coordinates_def)

lemma init_coords_nth:
  "i < length points \<Longrightarrow>
     concat (map (\<lambda>v. case Coordinates v of (x, y) \<Rightarrow> [x, y]) points) ! (2 * i) = X (points ! i) \<and>
     concat (map (\<lambda>v. case Coordinates v of (x, y) \<Rightarrow> [x, y]) points) ! (2 * i + 1) = Y (points ! i)"
proof (induction points arbitrary: i)
  case Nil
  then show ?case by simp
next
  case (Cons p ps)
  show ?case
  proof (cases i)
    case 0
    then show ?thesis by (simp add: Coordinates_def)
  next
    case (Suc k)
    then show ?thesis using Cons.IH[of k] Cons.prems by (simp add: Coordinates_def)
  qed
qed

lemma init_items:
  "items (map int [0..<length points])
     (concat (map (\<lambda>v. case Coordinates v of (x, y) \<Rightarrow> [x, y]) points))
   = map (point_item points) [0..<length points]"
proof (rule nth_equalityI)
  show "length (items (map int [0..<length points])
     (concat (map (\<lambda>v. case Coordinates v of (x, y) \<Rightarrow> [x, y]) points)))
    = length (map (point_item points) [0..<length points])"
    by simp
next
  fix i assume "i < length (items (map int [0..<length points])
     (concat (map (\<lambda>v. case Coordinates v of (x, y) \<Rightarrow> [x, y]) points)))"
  then have i: "i < length points" by simp
  show "items (map int [0..<length points])
     (concat (map (\<lambda>v. case Coordinates v of (x, y) \<Rightarrow> [x, y]) points)) ! i
    = map (point_item points) [0..<length points] ! i"
    using i init_coords_nth[OF i] by (simp add: nth_items item_at_def point_item_def)
qed

lemma NewBush_spec:
  assumes "- 1 \<le> nodeSize"
  shows "\<exists>bush. NewBush points nodeSize = Some (Some bush)
           \<and> NodeSize bush = nodeSize \<and> Points bush = points
           \<and> lockstep (Idxs bush) (Coords bush) \<and> length (Idxs bush) = length points
           \<and> mset (items (Idxs bush) (Coords bush)) = mset (map (point_item points) [0..<length points])
           \<and> kd_inv (Coords bush) nodeSize 0 (int (length points) - 1) 0"
proof -
  let ?I = "map int [0..<length points]"
  let ?C = "concat (map (\<lambda>v. case Coordinates v of (x, y) \<Rightarrow> [x, y]) points)"
  have wf0: "lockstep ?I ?C" by (simp add: lockstep_def init_coords_length)
  have "\<exists>idxs' coords'. sort_kd ?I ?C nodeSize 0 (int (length ?I) - 1) 0 = Some (Some (idxs', coords'))
           \<and> lockstep idxs' coords' \<and> length idxs' = length ?I
           \<and> rearr 0 (int (length ?I) - 1) (items ?I ?C) (items idxs' coords')
           \<and> kd_inv coords' nodeSize 0 (int (length ?I) - 1) 0"
    by (rule sort_kd_spec[OF wf0 assms]) auto
  then obtain idxs' coords' where
    s: "sort_kd ?I ?C nodeSize 0 (int (length ?I) - 1) 0 = Some (Some (idxs', coords'))"
      "lockstep idxs' coords'" "length idxs' = length ?I"
      "rearr 0 (int (length ?I) - 1) (items ?I ?C) (items idxs' coords')"
      "kd_inv coords' nodeSize 0 (int (length ?I) - 1) 0"
    by blast
  have "NewBush points nodeSize
      = Some (Some \<lparr>NodeSize = nodeSize, Points = points, Idxs = idxs', Coords = coords'\<rparr>)"
    using s(1) by (simp add: NewBush_def buildIndex_def)
  moreover have "mset (items idxs' coords') = mset (map (point_item points) [0..<length points])"
    using rearr_mset[OF s(4)] by (simp only: init_items)
  ultimately show ?thesis using s(2,3,5) by simp
qed

lemma items_paired:
  assumes "lockstep idxs coords"
    "mset (items idxs coords) = mset (map (point_item points) [0..<length points])"
  shows "paired points idxs coords" "length idxs = length points"
    "mset idxs = mset (map int [0..<length points])"
proof -
  have len: "length idxs = length points"
    using arg_cong[OF assms(2), of size] by simp
  show "length idxs = length points" by (rule len)
  have "map fst (items idxs coords) = idxs"
    by (rule nth_equalityI) (auto simp: nth_items item_at_def)
  then have "mset idxs = image_mset fst (mset (items idxs coords))"
    by (metis mset_map)
  also have "\<dots> = mset (map fst (map (point_item points) [0..<length points]))"
    unfolding assms(2) by (simp only: mset_map)
  also have "map fst (map (point_item points) [0..<length points]) = map int [0..<length points]"
    by (simp add: point_item_def)
  finally show "mset idxs = mset (map int [0..<length points])" .
  have "0 \<le> idxs ! i \<and> idxs ! i < int (length points) \<and>
        coords ! (2 * i) = X (points ! nat (idxs ! i)) \<and>
        coords ! (2 * i + 1) = Y (points ! nat (idxs ! i))" if "i < length idxs" for i
  proof -
    have "items idxs coords ! i \<in> set (items idxs coords)" using that by simp
    then have "item_at idxs coords i \<in> set (map (point_item points) [0..<length points])"
      using that assms(2) by (metis nth_items set_mset_mset)
    then obtain j where "j < length points" "item_at idxs coords i = point_item points j"
      by auto
    then show ?thesis by (auto simp: item_at_def point_item_def)
  qed
  then show "paired points idxs coords"
    using assms(1) by (simp add: paired_def lockstep_def)
qed

lemma swapItem_bounds:
  assumes "swapItem idxs coords i j = Some (idxs', coords')"
  shows "0 \<le> i \<and> i < int (length idxs) \<and> 0 \<le> j \<and> j < int (length idxs)"
  using assms
  by (auto simp: swapItem_def swapi_def elem_def split: if_splits Option.bind_splits)

lemma paired_items:
  "paired points idxs coords \<longleftrightarrow>
     lockstep idxs coords \<and>
     (\<forall>it \<in> set (items idxs coords). 0 \<le> fst it \<and> fst it < int (length points) \<and>
        fst (snd it) = X (points ! nat (fst it)) \<and> snd (snd it) = Y (points ! nat (fst it)))"
  by (auto simp: paired_def lockstep_def items_def item_at_def)

lemma swapItem_paired:
  assumes "paired points idxs coords" "swapItem idxs coords i j = Some (idxs', coords')"
  shows "paired points idxs' coords'"
proof -
  have wf0: "lockstep idxs coords" using assms(1) by (simp add: paired_def lockstep_def)
  note b = swapItem_bounds[OF assms(2)]
  from swapItem_Some[OF wf0, of i j] b assms(2) have
    s: "lockstep idxs' coords'"
      "items idxs' coords' = (items idxs coords)[nat i := items idxs coords ! nat j,
                                                 nat j := items idxs coords ! nat i]"
    by auto
  have "mset (items idxs' coords') = mset (items idxs coords)"
    unfolding s(2) using b mset_swap[of "nat j" "items idxs coords" "nat i"] by auto
  then have "set (items idxs' coords') = set (items idxs coords)"
    by (metis set_mset_mset)
  then show ?thesis using assms(1) s(1) by (simp add: paired_items)
qed

text \<open>
  Claim C3. For \<open>nodeSize \<ge> 1\<close>, \<open>NewBush(points, nodeSize)\<close> returns an index whose
  \<open>Coords\<close> satisfy the k-d partial order \<open>kd_inv\<close> on \<open>[0, n - 1]\<close> at depth 0: a range
  with \<open>right - left \<le> nodeSize\<close> is an unordered leaf; otherwise, with
  \<open>m = (left + right) div 2\<close> and axis \<open>depth mod 2\<close>, every element of \<open>[left, m - 1]\<close> is
  \<open>\<le>\<close> the element at \<open>m\<close> on that axis, every element of \<open>[m + 1, right]\<close> is \<open>\<ge>\<close> it, and
  both sub-ranges satisfy the same at depth \<open>depth + 1\<close>.
\<close>

theorem NewBush_kd_order:
  assumes "1 \<le> nodeSize"
  shows "\<exists>bush. NewBush points nodeSize = Some (Some bush)
           \<and> length (Idxs bush) = length points
           \<and> kd_inv (Coords bush) nodeSize 0 (int (length points) - 1) 0"
  using NewBush_spec[of nodeSize points] assms by auto

theorem NewBush_kd_order_witness:
  "(1::int) \<le> 1
   \<and> (\<exists>bush. NewBush [\<lparr>X = 3, Y = 0\<rparr>, \<lparr>X = 1, Y = 4\<rparr>, \<lparr>X = 2, Y = 2\<rparr>, \<lparr>X = 0, Y = 1\<rparr>] 1
           = Some (Some bush)
         \<and> length (Idxs bush)
           = length [\<lparr>X = 3, Y = 0\<rparr>, \<lparr>X = 1, Y = 4\<rparr>, \<lparr>X = 2, Y = 2\<rparr>, \<lparr>X = 0, Y = 1\<rparr>]
         \<and> kd_inv (Coords bush) 1 0
              (int (length [\<lparr>X = 3, Y = 0\<rparr>, \<lparr>X = 1, Y = 4\<rparr>, \<lparr>X = 2, Y = 2\<rparr>, \<lparr>X = 0, Y = 1\<rparr>]) - 1) 0)"
  using NewBush_kd_order
    [of 1 "[\<lparr>X = 3, Y = 0\<rparr>, \<lparr>X = 1, Y = 4\<rparr>, \<lparr>X = 2, Y = 2\<rparr>, \<lparr>X = 0, Y = 1\<rparr>]"]
  by simp

text \<open>
  Claim C4. For \<open>nodeSize \<ge> 1\<close> and \<open>n\<close> points, \<open>NewBush\<close> returns an index whose
  \<open>Idxs\<close> has length \<open>n\<close> and is a permutation of \<open>0..n-1\<close>, and whose \<open>Coords\<close> hold at
  \<open>2i\<close> and \<open>2i+1\<close> the coordinates of the point whose original position is
  \<open>Idxs[i]\<close> (\<open>paired\<close>); and every \<open>swapItem\<close> that returns preserves this pairing.
\<close>

theorem NewBush_permutation_paired:
  assumes "1 \<le> nodeSize"
  shows "\<exists>bush. NewBush points nodeSize = Some (Some bush)
           \<and> length (Idxs bush) = length points
           \<and> mset (Idxs bush) = mset (map int [0..<length points])
           \<and> paired points (Idxs bush) (Coords bush)
           \<and> (\<forall>idxs coords i j idxs' coords'.
                 paired points idxs coords \<and> swapItem idxs coords i j = Some (idxs', coords')
                 \<longrightarrow> paired points idxs' coords')"
proof -
  from NewBush_spec[of nodeSize points] assms obtain bush where
    b: "NewBush points nodeSize = Some (Some bush)" "lockstep (Idxs bush) (Coords bush)"
      "mset (items (Idxs bush) (Coords bush)) = mset (map (point_item points) [0..<length points])"
    by auto
  note items_paired[OF b(2,3)]
  then show ?thesis using b(1) swapItem_paired by blast
qed

theorem NewBush_permutation_paired_witness:
  "(1::int) \<le> 1
   \<and> (\<exists>bush. NewBush [\<lparr>X = 3, Y = 0\<rparr>, \<lparr>X = 1, Y = 4\<rparr>, \<lparr>X = 2, Y = 2\<rparr>, \<lparr>X = 0, Y = 1\<rparr>] 1
           = Some (Some bush)
         \<and> length (Idxs bush)
           = length [\<lparr>X = 3, Y = 0\<rparr>, \<lparr>X = 1, Y = 4\<rparr>, \<lparr>X = 2, Y = 2\<rparr>, \<lparr>X = 0, Y = 1\<rparr>]
         \<and> mset (Idxs bush)
           = mset (map int [0..<length [\<lparr>X = 3, Y = 0\<rparr>, \<lparr>X = 1, Y = 4\<rparr>, \<lparr>X = 2, Y = 2\<rparr>, \<lparr>X = 0, Y = 1\<rparr>]])
         \<and> paired [\<lparr>X = 3, Y = 0\<rparr>, \<lparr>X = 1, Y = 4\<rparr>, \<lparr>X = 2, Y = 2\<rparr>, \<lparr>X = 0, Y = 1\<rparr>]
              (Idxs bush) (Coords bush))"
  using NewBush_permutation_paired
    [of 1 "[\<lparr>X = 3, Y = 0\<rparr>, \<lparr>X = 1, Y = 4\<rparr>, \<lparr>X = 2, Y = 2\<rparr>, \<lparr>X = 0, Y = 1\<rparr>]"]
  by auto

section \<open>Range query on a built index\<close>

lemma pop_snoc: "pop (st @ [v]) = Some (v, st)"
  by (simp add: pop_def elem_def nth_append)

lemma pop3_append: "pop3 (st @ [l, r, a]) = Some (l, r, a, st)"
proof -
  have 1: "pop (st @ [l, r, a]) = Some (a, st @ [l, r])"
    using pop_snoc[of "st @ [l, r]" a] by simp
  have 2: "pop (st @ [l, r]) = Some (r, st @ [l])"
    using pop_snoc[of "st @ [l]" r] by simp
  have 3: "pop (st @ [l]) = Some (l, st)" by (rule pop_snoc)
  show ?thesis by (simp add: pop3_def 1 2 3)
qed

lemma elem_xy:
  assumes "lockstep idxs coords" "0 \<le> p" "p < int (length idxs)"
  shows "elem coords (2 * p) = Some (key_at coords 0 p)"
    "elem coords (2 * p + 1) = Some (key_at coords 1 p)"
    "elem idxs p = Some (idxs ! nat p)"
  using elem_key[OF assms, of 0] elem_key[OF assms, of 1] assms(2,3)
  by (auto simp: elem_def)

lemma range_leaf_spec:
  assumes "lockstep (Idxs bush) (Coords bush)" "0 \<le> i" "right < int (length (Idxs bush))"
  shows "range_leaf bush minX minY maxX maxY i right result
       = Some (result @ map (\<lambda>p. Idxs bush ! nat p)
           (filter (\<lambda>p. in_box minX minY maxX maxY (key_at (Coords bush) 0 p) (key_at (Coords bush) 1 p))
              [i..right]))"
  using assms(2)
proof (induction "nat (right + 1 - i)" arbitrary: i result)
  case 0
  then have "[i..right] = []" by simp
  then show ?case using 0 by (subst range_leaf.simps) simp
next
  case (Suc n)
  then have le: "i \<le> right" by simp
  have up: "[i..right] = i # [i + 1..right]" using le by (simp add: upto_rec1)
  have b: "i < int (length (Idxs bush))" using le assms(3) by simp
  note e = elem_xy[OF assms(1) Suc.prems b]
  have n: "n = nat (right + 1 - (i + 1))" "0 \<le> i + 1" using Suc by auto
  show ?case
    by (subst range_leaf.simps) (simp add: le e up Suc.hyps(1)[OF n] in_box_def)
qed

lemma range_loop_node:
  assumes wf0: "lockstep (Idxs bush) (Coords bush)" and ns: "- 1 \<le> NodeSize bush"
    and b: "0 \<le> left" "right < int (length (Idxs bush))" "left \<le> right + 1"
    and kd: "kd_inv (Coords bush) (NodeSize bush) left right depth"
    and ax: "axis = depth mod 2"
  shows "\<exists>vs. (\<forall>st res. range_loop bush minX minY maxX maxY (st @ [left, right, axis]) res
                = range_loop bush minX minY maxX maxY st (res @ map (\<lambda>p. Idxs bush ! nat p) vs))
           \<and> distinct vs
           \<and> set vs = {p. left \<le> p \<and> p \<le> right \<and>
                 in_box minX minY maxX maxY (key_at (Coords bush) 0 p) (key_at (Coords bush) 1 p)}"
  using b kd ax
proof (induction "nat (right - left + 1)" arbitrary: left right depth axis rule: less_induct)
  case less
  let ?f = "\<lambda>p. Idxs bush ! nat p"
  let ?in = "\<lambda>p. in_box minX minY maxX maxY (key_at (Coords bush) 0 p) (key_at (Coords bush) 1 p)"
  let ?loop = "range_loop bush minX minY maxX maxY"
  show ?case
  proof (cases "right - left \<le> NodeSize bush")
    case True
    let ?vs = "filter ?in [left..right]"
    have "?loop (st @ [left, right, axis]) res = ?loop st (res @ map ?f ?vs)" for st res
      using True range_leaf_spec[OF wf0 less.prems(1,2)]
      by (subst range_loop.simps) (simp add: pop3_append)
    moreover have "distinct ?vs" by simp
    moreover have "set ?vs = {p. left \<le> p \<and> p \<le> right \<and> ?in p}" by auto
    ultimately show ?thesis by blast
  next
    case False
    define m where "m = (left + right) div 2"
    have lr: "left \<le> right" using False ns by simp
    have m: "left \<le> m" "m \<le> right" using lr by (auto simp: m_def)
    have a01: "axis = 0 \<or> axis = 1" using less.prems(5) by auto
    define na where "na = (axis + 1) smod 2"
    have na: "na = (depth + 1) mod 2"
      using a01 less.prems(5) unfolding na_def
      by (auto simp: signed_modulo_int_def sgn_if) presburger+
    from less.prems(4) False have
      klo: "\<And>i. left \<le> i \<Longrightarrow> i \<le> m - 1 \<Longrightarrow> key_at (Coords bush) axis i \<le> key_at (Coords bush) axis m"
      and khi: "\<And>i. m + 1 \<le> i \<Longrightarrow> i \<le> right \<Longrightarrow> key_at (Coords bush) axis m \<le> key_at (Coords bush) axis i"
      and kl: "kd_inv (Coords bush) (NodeSize bush) left (m - 1) (depth + 1)"
      and kr: "kd_inv (Coords bush) (NodeSize bush) (m + 1) right (depth + 1)"
      unfolding m_def less.prems(5) by (auto elim: kd_inv.cases)
    have "\<exists>vs. (\<forall>st res. ?loop (st @ [left, m - 1, na]) res = ?loop st (res @ map ?f vs))
           \<and> distinct vs \<and> set vs = {p. left \<le> p \<and> p \<le> m - 1 \<and> ?in p}"
      by (rule less.hyps[OF _ _ _ _ kl na]) (use m less.prems in auto)
    then obtain vsL where
      L: "\<And>st res. ?loop (st @ [left, m - 1, na]) res = ?loop st (res @ map ?f vsL)"
        "distinct vsL" "set vsL = {p. left \<le> p \<and> p \<le> m - 1 \<and> ?in p}"
      by blast
    have "\<exists>vs. (\<forall>st res. ?loop (st @ [m + 1, right, na]) res = ?loop st (res @ map ?f vs))
           \<and> distinct vs \<and> set vs = {p. m + 1 \<le> p \<and> p \<le> right \<and> ?in p}"
      by (rule less.hyps[OF _ _ _ _ kr na]) (use m less.prems in auto)
    then obtain vsR where
      R: "\<And>st res. ?loop (st @ [m + 1, right, na]) res = ?loop st (res @ map ?f vsR)"
        "distinct vsR" "set vsR = {p. m + 1 \<le> p \<and> p \<le> right \<and> ?in p}"
      by blast
    define x where "x = key_at (Coords bush) 0 m"
    define y where "y = key_at (Coords bush) 1 m"
    define condL where "condL \<longleftrightarrow> (axis = 0 \<and> minX \<le> x) \<or> (axis \<noteq> 0 \<and> minY \<le> y)"
    define condR where "condR \<longleftrightarrow> (axis = 0 \<and> maxX \<ge> x) \<or> (axis \<noteq> 0 \<and> maxY \<ge> y)"
    define vs where "vs = (if ?in m then [m] else []) @ vsR @ vsL"
    have bm: "0 \<le> m" "m < int (length (Idxs bush))" using m less.prems by auto
    note e = elem_xy[OF wf0 bm, folded x_def y_def]
    have pruneL: "vsL = []" if "\<not> condL"
    proof -
      have "\<not> ?in p" if p: "left \<le> p" "p \<le> m - 1" for p
        using klo[OF p] \<open>\<not> condL\<close> a01
        by (auto simp: condL_def x_def y_def in_box_def)
      then have "set vsL = {}" unfolding L(3) by blast
      then show ?thesis by simp
    qed
    have pruneR: "vsR = []" if "\<not> condR"
    proof -
      have "\<not> ?in p" if p: "m + 1 \<le> p" "p \<le> right" for p
        using khi[OF p] \<open>\<not> condR\<close> a01
        by (auto simp: condR_def x_def y_def in_box_def)
      then have "set vsR = {}" unfolding R(3) by blast
      then show ?thesis by simp
    qed
    have step: "?loop (st @ [left, right, axis]) res
        = ?loop ((if condL then st @ [left, m - 1, na] else st) @ (if condR then [m + 1, right, na] else []))
            (res @ map ?f (if ?in m then [m] else []))" for st res
      using False
      by (subst range_loop.simps)
         (simp add: pop3_append floor_mid' m_def[symmetric] e in_box_def x_def[symmetric]
            y_def[symmetric] na_def condL_def condR_def Let_def)
    have stepR: "?loop (S @ (if condR then [m + 1, right, na] else [])) r
        = ?loop S (r @ map ?f vsR)" for S r
    proof (cases condR)
      case True
      then show ?thesis by (simp only: if_True R(1))
    next
      case False
      then show ?thesis using pruneR by simp
    qed
    have stepL: "?loop (if condL then st @ [left, m - 1, na] else st) r
        = ?loop st (r @ map ?f vsL)" for st r
    proof (cases condL)
      case True
      then show ?thesis by (simp only: if_True L(1))
    next
      case False
      then show ?thesis using pruneL by simp
    qed
    have run: "?loop (st @ [left, right, axis]) res = ?loop st (res @ map ?f vs)" for st res
    proof -
      let ?r1 = "res @ map ?f (if ?in m then [m] else [])"
      have "?loop (st @ [left, right, axis]) res
          = ?loop ((if condL then st @ [left, m - 1, na] else st) @ (if condR then [m + 1, right, na] else [])) ?r1"
        by (rule step)
      also have "\<dots> = ?loop (if condL then st @ [left, m - 1, na] else st) (?r1 @ map ?f vsR)"
        by (rule stepR)
      also have "\<dots> = ?loop st ((?r1 @ map ?f vsR) @ map ?f vsL)"
        by (rule stepL)
      also have "(?r1 @ map ?f vsR) @ map ?f vsL = res @ map ?f vs"
        by (simp add: vs_def)
      finally show ?thesis .
    qed
    have vs': "set vs = (if ?in m then {m} else {}) \<union> set vsR \<union> set vsL"
      by (auto simp: vs_def)
    have "set vs = {p. left \<le> p \<and> p \<le> right \<and> ?in p}"
    proof (intro set_eqI iffI)
      fix p assume "p \<in> set vs"
      then show "p \<in> {p. left \<le> p \<and> p \<le> right \<and> ?in p}"
        unfolding vs' using L(3) R(3) m by (auto split: if_splits)
    next
      fix p assume p: "p \<in> {p. left \<le> p \<and> p \<le> right \<and> ?in p}"
      consider "p = m" | "p \<le> m - 1" | "m + 1 \<le> p" by linarith
      then show "p \<in> set vs"
        unfolding vs' using p L(3) R(3) by cases auto
    qed
    moreover have "distinct vs"
      unfolding vs_def using L(2,3) R(2,3) by auto
    ultimately show ?thesis using run by blast
  qed
qed

lemma NewBush_built:
  assumes "- 1 \<le> nodeSize"
  shows "\<exists>bush. NewBush points nodeSize = Some (Some bush) \<and> NodeSize bush = nodeSize
           \<and> Points bush = points \<and> built points bush"
proof -
  from NewBush_spec[OF assms, of points] obtain bush where
    b: "NewBush points nodeSize = Some (Some bush)" "NodeSize bush = nodeSize"
      "Points bush = points" "lockstep (Idxs bush) (Coords bush)"
      "mset (items (Idxs bush) (Coords bush)) = mset (map (point_item points) [0..<length points])"
      "kd_inv (Coords bush) nodeSize 0 (int (length points) - 1) 0"
    by blast
  note items_paired[OF b(4,5)]
  then show ?thesis using b by (auto simp: built_def)
qed

lemma range_loop_empty: "range_loop bush minX minY maxX maxY [] res = Some (Some res)"
  by (subst range_loop.simps) simp

lemma built_positions:
  assumes "built points bush"
  shows "(\<lambda>p. Idxs bush ! nat p) ` {p. 0 \<le> p \<and> p \<le> int (length points) - 1 \<and> P (nat (Idxs bush ! nat p))}
         = {int i | i. i < length points \<and> P i}"
    and "inj_on (\<lambda>p. Idxs bush ! nat p) {p. 0 \<le> p \<and> p \<le> int (length points) - 1}"
proof -
  have len: "length (Idxs bush) = length points"
    and ms: "mset (Idxs bush) = mset (map int [0..<length points])"
    using assms by (auto simp: built_def)
  have st: "set (Idxs bush) = int ` {0..<length points}"
    using ms by (metis set_mset_mset set_map set_upt)
  have "distinct (map int [0..<length points])" by (simp add: distinct_map)
  then have d: "distinct (Idxs bush)" using ms by (metis mset_eq_imp_distinct_iff)
  show "inj_on (\<lambda>p. Idxs bush ! nat p) {p. 0 \<le> p \<and> p \<le> int (length points) - 1}"
  proof (rule inj_onI)
    fix p q assume "p \<in> {p. 0 \<le> p \<and> p \<le> int (length points) - 1}"
      "q \<in> {p. 0 \<le> p \<and> p \<le> int (length points) - 1}" "Idxs bush ! nat p = Idxs bush ! nat q"
    then have "nat p = nat q" using d len by (auto simp: nth_eq_iff_index_eq)
    then show "p = q" using \<open>p \<in> _\<close> \<open>q \<in> _\<close> by auto
  qed
  show "(\<lambda>p. Idxs bush ! nat p) ` {p. 0 \<le> p \<and> p \<le> int (length points) - 1 \<and> P (nat (Idxs bush ! nat p))}
         = {int i | i. i < length points \<and> P i}"
  proof (intro set_eqI iffI)
    fix v assume "v \<in> (\<lambda>p. Idxs bush ! nat p) ` {p. 0 \<le> p \<and> p \<le> int (length points) - 1 \<and> P (nat (Idxs bush ! nat p))}"
    then obtain p where p: "0 \<le> p" "p \<le> int (length points) - 1" "P (nat v)" "v = Idxs bush ! nat p"
      by auto
    then have "v \<in> set (Idxs bush)" using len by auto
    then obtain i where "i < length points" "v = int i" using st by auto
    then show "v \<in> {int i | i. i < length points \<and> P i}" using p(3) by auto
  next
    fix v assume "v \<in> {int i | i. i < length points \<and> P i}"
    then obtain i where i: "i < length points" "P i" "v = int i" by auto
    then have "v \<in> set (Idxs bush)" using st by auto
    then obtain q where q: "q < length (Idxs bush)" "Idxs bush ! q = v"
      by (auto simp: in_set_conv_nth)
    have "int q \<in> {p. 0 \<le> p \<and> p \<le> int (length points) - 1 \<and> P (nat (Idxs bush ! nat p))}"
      using q i len by auto
    moreover have "(\<lambda>p. Idxs bush ! nat p) (int q) = v" using q by simp
    ultimately show "v \<in> (\<lambda>p. Idxs bush ! nat p) ` {p. 0 \<le> p \<and> p \<le> int (length points) - 1 \<and> P (nat (Idxs bush ! nat p))}"
      by blast
  qed
qed

lemma built_keys:
  assumes "built points bush" "0 \<le> p" "p \<le> int (length points) - 1"
  shows "key_at (Coords bush) 0 p = X (points ! nat (Idxs bush ! nat p))"
    "key_at (Coords bush) 1 p = Y (points ! nat (Idxs bush ! nat p))"
proof -
  have "nat (2 * p) = 2 * nat p" "nat (2 * p + 1) = 2 * nat p + 1" "nat p < length (Idxs bush)"
    using assms by (auto simp: built_def)
  then show "key_at (Coords bush) 0 p = X (points ! nat (Idxs bush ! nat p))"
    "key_at (Coords bush) 1 p = Y (points ! nat (Idxs bush ! nat p))"
    using assms(1) by (auto simp: built_def paired_def key_at_def)
qed

lemma Range_built:
  assumes "built points bush" "- 1 \<le> NodeSize bush"
  shows "\<exists>res. Range_kd bush minX minY maxX maxY = Some (Some res) \<and> distinct res
           \<and> set res = {int i | i. i < length points \<and>
                 in_box minX minY maxX maxY (X (points ! i)) (Y (points ! i))}"
proof -
  let ?f = "\<lambda>p. Idxs bush ! nat p"
  let ?n = "int (length points)"
  have len: "length (Idxs bush) = length points" using assms(1) by (simp add: built_def)
  have wf0: "lockstep (Idxs bush) (Coords bush)"
    using assms(1) by (simp add: built_def paired_def lockstep_def)
  have kd: "kd_inv (Coords bush) (NodeSize bush) 0 (?n - 1) 0"
    using assms(1) by (simp add: built_def)
  have "\<exists>vs. (\<forall>st res. range_loop bush minX minY maxX maxY (st @ [0, ?n - 1, 0]) res
                = range_loop bush minX minY maxX maxY st (res @ map ?f vs))
           \<and> distinct vs
           \<and> set vs = {p. 0 \<le> p \<and> p \<le> ?n - 1 \<and>
                 in_box minX minY maxX maxY (key_at (Coords bush) 0 p) (key_at (Coords bush) 1 p)}"
    by (rule range_loop_node[OF wf0 assms(2) _ _ _ kd]) (use len in auto)
  then obtain vs where
    vs: "\<And>st res. range_loop bush minX minY maxX maxY (st @ [0, ?n - 1, 0]) res
                = range_loop bush minX minY maxX maxY st (res @ map ?f vs)"
      "distinct vs"
      "set vs = {p. 0 \<le> p \<and> p \<le> ?n - 1 \<and>
                 in_box minX minY maxX maxY (key_at (Coords bush) 0 p) (key_at (Coords bush) 1 p)}"
    by blast
  have run: "Range_kd bush minX minY maxX maxY = Some (Some (map ?f vs))"
    using vs(1)[of "[]" "[]"] by (simp add: Range_kd_def len range_loop_empty)
  have "set vs = {p. 0 \<le> p \<and> p \<le> ?n - 1 \<and>
          in_box minX minY maxX maxY (X (points ! nat (?f p))) (Y (points ! nat (?f p)))}"
    unfolding vs(3) using built_keys[OF assms(1)] by auto
  then have "set (map ?f vs) = {int i | i. i < length points \<and>
                 in_box minX minY maxX maxY (X (points ! i)) (Y (points ! i))}"
    using built_positions(1)[OF assms(1),
        of "\<lambda>i. in_box minX minY maxX maxY (X (points ! i)) (Y (points ! i))"]
    by simp
  moreover have "distinct (map ?f vs)"
    unfolding distinct_map
    using vs(2) vs(3) inj_on_subset[OF built_positions(2)[OF assms(1)], of "set vs"] by auto
  ultimately show ?thesis using run by blast
qed

text \<open>
  Claim C1. For every point list, every \<open>nodeSize \<ge> 1\<close> and every box, \<open>NewBush\<close> returns an
  index and \<open>Range\<close> on it returns a list without duplicates whose set is exactly the set of
  original positions \<open>i\<close> with \<open>minX \<le> x\<^sub>i \<le> maxX\<close> and \<open>minY \<le> y\<^sub>i \<le> maxY\<close>: the result of
  the linear scan, whatever \<open>nodeSize\<close> is.
\<close>

theorem Range_equals_linear_scan:
  assumes "1 \<le> nodeSize"
  shows "\<exists>bush res. NewBush points nodeSize = Some (Some bush)
           \<and> Range_kd bush minX minY maxX maxY = Some (Some res) \<and> distinct res
           \<and> set res = {int i | i. i < length points \<and>
                 minX \<le> X (points ! i) \<and> X (points ! i) \<le> maxX \<and>
                 minY \<le> Y (points ! i) \<and> Y (points ! i) \<le> maxY}"
proof -
  from NewBush_built[of nodeSize points] assms obtain bush where
    b: "NewBush points nodeSize = Some (Some bush)" "NodeSize bush = nodeSize" "built points bush"
    by auto
  from Range_built[OF b(3), of minX minY maxX maxY] b(2) assms
  show ?thesis using b(1) by (auto simp: in_box_def)
qed

theorem Range_equals_linear_scan_witness:
  "(1::int) \<le> 2
   \<and> (\<exists>bush res.
         NewBush [\<lparr>X = 0, Y = 0\<rparr>, \<lparr>X = 1, Y = 1\<rparr>, \<lparr>X = 2, Y = 2\<rparr>, \<lparr>X = 3, Y = 3\<rparr>, \<lparr>X = 4, Y = 4\<rparr>] 2
           = Some (Some bush)
         \<and> Range_kd bush 1 1 3 3 = Some (Some res) \<and> distinct res
         \<and> set res = {int i | i.
               i < length [\<lparr>X = 0, Y = 0\<rparr>, \<lparr>X = 1, Y = 1\<rparr>, \<lparr>X = 2, Y = 2\<rparr>, \<lparr>X = 3, Y = 3\<rparr>, \<lparr>X = 4, Y = 4\<rparr>] \<and>
               1 \<le> X ([\<lparr>X = 0, Y = 0\<rparr>, \<lparr>X = 1, Y = 1\<rparr>, \<lparr>X = 2, Y = 2\<rparr>, \<lparr>X = 3, Y = 3\<rparr>, \<lparr>X = 4, Y = 4\<rparr>] ! i) \<and>
               X ([\<lparr>X = 0, Y = 0\<rparr>, \<lparr>X = 1, Y = 1\<rparr>, \<lparr>X = 2, Y = 2\<rparr>, \<lparr>X = 3, Y = 3\<rparr>, \<lparr>X = 4, Y = 4\<rparr>] ! i) \<le> 3 \<and>
               1 \<le> Y ([\<lparr>X = 0, Y = 0\<rparr>, \<lparr>X = 1, Y = 1\<rparr>, \<lparr>X = 2, Y = 2\<rparr>, \<lparr>X = 3, Y = 3\<rparr>, \<lparr>X = 4, Y = 4\<rparr>] ! i) \<and>
               Y ([\<lparr>X = 0, Y = 0\<rparr>, \<lparr>X = 1, Y = 1\<rparr>, \<lparr>X = 2, Y = 2\<rparr>, \<lparr>X = 3, Y = 3\<rparr>, \<lparr>X = 4, Y = 4\<rparr>] ! i) \<le> 3})"
proof -
  have h: "(1::int) \<le> 2" by simp
  show ?thesis
    using h Range_equals_linear_scan [OF h, where minX = 1 and minY = 1 and maxX = 3 and maxY = 3
      and points = "[\<lparr>X = 0, Y = 0\<rparr>, \<lparr>X = 1, Y = 1\<rparr>, \<lparr>X = 2, Y = 2\<rparr>, \<lparr>X = 3, Y = 3\<rparr>, \<lparr>X = 4, Y = 4\<rparr>]"]
    by blast
qed

text \<open>
  Claim C10. For every index built with \<open>nodeSize \<ge> 1\<close> and every box with
  \<open>minX > maxX\<close> or \<open>minY > maxY\<close>, \<open>Range\<close> returns exactly the empty list.
\<close>

theorem Range_inverted_box_empty:
  assumes "1 \<le> nodeSize" "minX > maxX \<or> minY > maxY"
  shows "\<exists>bush. NewBush points nodeSize = Some (Some bush)
           \<and> Range_kd bush minX minY maxX maxY = Some (Some [])"
proof -
  from NewBush_built[of nodeSize points] assms(1) obtain bush where
    b: "NewBush points nodeSize = Some (Some bush)" "NodeSize bush = nodeSize" "built points bush"
    by auto
  from Range_built[OF b(3), of minX minY maxX maxY] b(2) assms(1) obtain res where
    r: "Range_kd bush minX minY maxX maxY = Some (Some res)"
      "set res = {int i | i. i < length points \<and>
                 in_box minX minY maxX maxY (X (points ! i)) (Y (points ! i))}"
    by auto
  have "set res = {}" unfolding r(2) using assms(2) by (auto simp: in_box_def)
  then show ?thesis using b(1) r(1) by auto
qed

theorem Range_inverted_box_empty_witness:
  "(1::int) \<le> 2 \<and> ((3::real) > 1 \<or> (1::real) > 3)
   \<and> (\<exists>bush.
         NewBush [\<lparr>X = 0, Y = 0\<rparr>, \<lparr>X = 1, Y = 1\<rparr>, \<lparr>X = 2, Y = 2\<rparr>, \<lparr>X = 3, Y = 3\<rparr>, \<lparr>X = 4, Y = 4\<rparr>] 2
           = Some (Some bush)
         \<and> Range_kd bush 3 1 1 3 = Some (Some []))"
proof -
  have h: "(1::int) \<le> 2" "(3::real) > 1 \<or> (1::real) > 3" by simp_all
  show ?thesis
    using h Range_inverted_box_empty [OF h, where points = "[\<lparr>X = 0, Y = 0\<rparr>, \<lparr>X = 1, Y = 1\<rparr>, \<lparr>X = 2, Y = 2\<rparr>, \<lparr>X = 3, Y = 3\<rparr>, \<lparr>X = 4, Y = 4\<rparr>]"]
    by blast
qed

section \<open>Rounding to float64\<close>

text \<open>Values \<open>m * 2\<^sup>e\<close> with \<open>|m| < 2\<^sup>5\<^sup>3\<close> in the range of float64 are not changed by rounding;
  in particular the integers below \<open>2\<^sup>5\<^sup>3\<close> in absolute value. The odd integer
  \<open>-(2\<^sup>5\<^sup>3 + 1)\<close> lies halfway between two float64 values and is rounded to the even one.\<close>

lemma ties_even_of_int: "ties_even (real_of_int n) = n"
  by (simp add: ties_even_def)

lemma round64_unfold:
  assumes "v \<noteq> 0" "\<lfloor>log 2 \<bar>v\<bar>\<rfloor> = k" "E = max (k - 52) (- 1074)"
    "w = real_of_int (ties_even (v / 2 powr real_of_int E)) * 2 powr real_of_int E"
    "\<bar>w\<bar> < 2 ^ 1024"
  shows "round64 v = Finite w"
proof -
  have "round64 v = (if 2 ^ 1024 \<le> \<bar>w\<bar> then (if 0 < v then PosInf else NegInf) else Finite w)"
    unfolding round64_def Let_def assms(2) assms(3)[symmetric] assms(4)[symmetric]
    using assms(1) by (simp only: if_False)
  also have "\<dots> = Finite w" using assms(5) by (simp only: not_le[symmetric] if_False)
  finally show ?thesis .
qed

lemma round64_dyadic:
  assumes m: "m \<noteq> 0" "\<bar>m\<bar> < 2 ^ 53" and e: "- 1074 \<le> e"
    and big: "\<bar>real_of_int m * 2 powr real_of_int e\<bar> < 2 ^ 1024"
  shows "round64 (real_of_int m * 2 powr real_of_int e) = Finite (real_of_int m * 2 powr real_of_int e)"
proof -
  define v where "v = real_of_int m * 2 powr real_of_int e"
  have p0: "0 < (2::real) powr real_of_int e" by simp
  have v0: "v \<noteq> 0" using m(1) p0 unfolding v_def by simp
  have am: "0 < \<bar>real_of_int m\<bar>" using m(1) by simp
  have av: "\<bar>v\<bar> = \<bar>real_of_int m\<bar> * 2 powr real_of_int e"
    unfolding v_def abs_mult by simp
  have "log 2 \<bar>v\<bar> = log 2 \<bar>real_of_int m\<bar> + log 2 (2 powr real_of_int e)"
    unfolding av using am p0 by (intro log_mult_pos) auto
  then have lg: "log 2 \<bar>v\<bar> = log 2 \<bar>real_of_int m\<bar> + real_of_int e" by simp
  define k where "k = \<lfloor>log 2 \<bar>v\<bar>\<rfloor>"
  have fl: "k = \<lfloor>log 2 \<bar>real_of_int m\<bar>\<rfloor> + e"
    unfolding k_def lg by (rule floor_add_int[symmetric])
  have "real_of_int \<bar>m\<bar> < 2 ^ 53" using m(2) by simp
  then have "\<bar>real_of_int m\<bar> < 2 ^ 53" by simp
  then have "log 2 \<bar>real_of_int m\<bar> < log 2 (2 ^ 53)" using am by simp
  also have "log 2 ((2::real) ^ 53) = real 53" by (rule log_pow_cancel) auto
  finally have "log 2 \<bar>real_of_int m\<bar> < 53" by simp
  then have "\<lfloor>log 2 \<bar>real_of_int m\<bar>\<rfloor> \<le> 52" by linarith
  define E where "E = max (k - 52) (- 1074)"
  have E: "E \<le> e" using \<open>\<lfloor>log 2 \<bar>real_of_int m\<bar>\<rfloor> \<le> 52\<close> fl e by (simp add: E_def)
  have d: "(2::real) powr real_of_int e = 2 powr real_of_int (e - E) * 2 powr real_of_int E"
    by (simp add: powr_add[symmetric])
  have "(2::real) powr real_of_int (e - E) = 2 ^ nat (e - E)"
    using E powr_real_of_int[of 2 "e - E"] by (simp only: diff_ge_0_iff_ge if_True zero_less_numeral)
  then have n: "(2::real) powr real_of_int (e - E) = real_of_int (2 ^ nat (e - E))"
    by simp
  have q: "v / 2 powr real_of_int E = real_of_int (m * 2 ^ nat (e - E))"
    unfolding v_def d n by simp
  have w: "v = real_of_int (ties_even (v / 2 powr real_of_int E)) * 2 powr real_of_int E"
    unfolding q ties_even_of_int unfolding q[symmetric] by simp
  have "round64 v = Finite v"
  proof (rule round64_unfold[OF v0 k_def[symmetric] E_def])
    show "v = real_of_int (ties_even (v / 2 powr real_of_int E)) * 2 powr real_of_int E" by (rule w)
    show "\<bar>v\<bar> < 2 ^ 1024" using big unfolding v_def .
  qed
  then show ?thesis unfolding v_def .
qed

lemma round64_0 [simp]: "round64 0 = Finite 0"
  by (simp add: round64_def)

lemma round64_int:
  assumes "\<bar>n\<bar> < 2 ^ 53"
  shows "round64 (real_of_int n) = Finite (real_of_int n)"
proof (cases "n = 0")
  case True
  then show ?thesis by simp
next
  case False
  have "real_of_int \<bar>n\<bar> < 2 ^ 53" using assms by simp
  then have "\<bar>real_of_int n\<bar> < 2 ^ 53" by simp
  also have "(2::real) ^ 53 \<le> 2 ^ 1024" by (rule power_increasing) auto
  finally have "\<bar>real_of_int n * 2 powr real_of_int 0\<bar> < 2 ^ 1024" by simp
  from round64_dyadic[OF False assms _ this] show ?thesis by simp
qed

lemma round64_1 [simp]: "round64 1 = Finite 1"
  using round64_int[of 1] by simp

lemma round64_neg_1 [simp]: "round64 (- 1) = Finite (- 1)"
  using round64_int[of "- 1"] by simp

lemma round64_numeral:
  "(numeral k :: int) < 2 ^ 53 \<Longrightarrow> round64 (numeral k) = Finite (numeral k)"
  using round64_int[of "numeral k"] by simp

lemma round64_neg_numeral:
  "(numeral k :: int) < 2 ^ 53 \<Longrightarrow> round64 (- numeral k) = Finite (- numeral k)"
  using round64_int[of "- numeral k"] by simp




lemma exact_int: "\<bar>n\<bar> < 2 ^ 53 \<Longrightarrow> exact (real_of_int n)"
  by (simp add: exact_def round64_int)

lemma exact_0 [simp]: "exact 0"
  by (simp add: exact_def)

lemma exact_1 [simp]: "exact 1"
  by (simp add: exact_def)

lemma exact_neg_1 [simp]: "exact (- 1)"
  by (simp add: exact_def)





section \<open>Radius query on a built index\<close>









lemma within_loop_empty: "within_loop bush qx qy radius r2 [] res = Some (Some res)"
  by (subst within_loop.simps) simp










section \<open>Node sizes below 1\<close>

lemma second_child_big:
  fixes left right ns :: int
  assumes "\<not> right - left \<le> ns" "ns \<le> - 2"
  shows "\<not> right - ((left + right) div 2 + 1) \<le> ns"
  using assms by linarith

lemma sort_kd_returns_only_leaf:
  assumes "sort_kd idxs coords ns left right depth = Some y"
  shows "ns \<le> - 2 \<longrightarrow> lockstep idxs coords \<longrightarrow>
         (left \<le> right \<longrightarrow> 0 \<le> left \<and> right < int (length idxs)) \<longrightarrow> 0 \<le> depth \<longrightarrow>
         right - left \<le> ns \<and> y = Some (idxs, coords)"
proof (rule sort_kd.raw_induct[OF _ assms, where P = "\<lambda>idxs coords ns left right depth y.
         ns \<le> - 2 \<longrightarrow> lockstep idxs coords \<longrightarrow>
         (left \<le> right \<longrightarrow> 0 \<le> left \<and> right < int (length idxs)) \<longrightarrow> 0 \<le> depth \<longrightarrow>
         right - left \<le> ns \<and> y = Some (idxs, coords)"], goal_cases)
  case (1 f idxs coords ns left right depth y)
  show ?case
  proof (intro impI)
    assume ns: "ns \<le> - 2" and wf0: "lockstep idxs coords"
      and b: "left \<le> right \<longrightarrow> 0 \<le> left \<and> right < int (length idxs)" and d: "0 \<le> depth"
    show "right - left \<le> ns \<and> y = Some (idxs, coords)"
    proof (cases "right - left \<le> ns")
      case True
      then show ?thesis using 1(2) by simp
    next
      case False
      define m where "m = (left + right) div 2"
      have a: "depth smod 2 = 0 \<or> depth smod 2 = 1"
        using d by (auto simp: signed_modulo_int_def sgn_if)
      have "\<exists>idxs1 coords1. sselect idxs coords m left right (depth smod 2) = Some (Some (idxs1, coords1))
              \<and> lockstep idxs1 coords1 \<and> length idxs1 = length idxs"
      proof (cases "left \<le> right")
        case True
        then have m: "left \<le> m" "m \<le> right" by (auto simp: m_def)
        from sselect_spec[OF wf0 a _ _ order_refl order_refl m, of ] b True
        show ?thesis by blast
      next
        case False
        then show ?thesis using wf0 by (simp add: sselect_empty)
      qed
      then obtain idxs1 coords1 where
        s1: "sselect idxs coords m left right (depth smod 2) = Some (Some (idxs1, coords1))"
          "lockstep idxs1 coords1" "length idxs1 = length idxs"
        by blast
      from 1(2) False s1(1) have
        eq: "f idxs1 coords1 ns left (m - 1) (depth + 1) \<bind>
               (\<lambda>r2. case r2 of None \<Rightarrow> Some None
                     | Some (idxs2, coords2) \<Rightarrow> f idxs2 coords2 ns (m + 1) right (depth + 1)) = Some y"
        by (simp add: floor_mid' m_def[symmetric])
      then obtain r2 where
        r2: "f idxs1 coords1 ns left (m - 1) (depth + 1) = Some r2"
          "(case r2 of None \<Rightarrow> Some None
            | Some (idxs2, coords2) \<Rightarrow> f idxs2 coords2 ns (m + 1) right (depth + 1)) = Some y"
        by (auto simp: bind_eq_Some_conv)
      have b1: "left \<le> m - 1 \<longrightarrow> 0 \<le> left \<and> m - 1 < int (length idxs1)"
        using b s1(3) by (auto simp: m_def)
      have b2: "m + 1 \<le> right \<longrightarrow> 0 \<le> m + 1 \<and> right < int (length idxs1)"
        using b s1(3) by (auto simp: m_def)
      from 1(1)[OF r2(1)] ns s1(2) b1 d have "r2 = Some (idxs1, coords1)" by simp
      then have "f idxs1 coords1 ns (m + 1) right (depth + 1) = Some y" using r2(2) by simp
      from 1(1)[OF this] ns s1(2) b2 d have "right - (m + 1) \<le> ns" by simp
      then show ?thesis using second_child_big[OF False ns] by (simp add: m_def)
    qed
  qed
qed

lemma NewBush_diverges:
  assumes "nodeSize \<le> - 2"
  shows "NewBush points nodeSize = None"
proof -
  let ?I = "map int [0..<length points]"
  let ?C = "concat (map (\<lambda>v. case Coordinates v of (x, y) \<Rightarrow> [x, y]) points)"
  have wf0: "lockstep ?I ?C" by (simp add: lockstep_def init_coords_length)
  have "sort_kd ?I ?C nodeSize 0 (int (length ?I) - 1) 0 = None"
  proof (cases "sort_kd ?I ?C nodeSize 0 (int (length ?I) - 1) 0")
    case None
    then show ?thesis .
  next
    case (Some y)
    from sort_kd_returns_only_leaf[OF Some] assms wf0
    have "int (length ?I) - 1 - 0 \<le> nodeSize" by simp
    then show ?thesis using assms by simp
  qed
  then show ?thesis by (simp add: NewBush_def buildIndex_def)
qed

text \<open>
  Claim C6 as stated fails: \<open>NewBush\<close> passes \<open>nodeSize\<close> to the recursive builder as it is.
  With \<open>nodeSize = 0\<close> two points are split and ordered along x (with the value clamped
  to 1 they would stay one unordered leaf, as the second equation shows), and the index
  keeps \<open>NodeSize = 0\<close>.
\<close>

theorem NewBush_nodeSize_counterexample:
  "NewBush [\<lparr>X = 1, Y = 0\<rparr>, \<lparr>X = 0, Y = 0\<rparr>] 0
     = Some (Some \<lparr>NodeSize = 0, Points = [\<lparr>X = 1, Y = 0\<rparr>, \<lparr>X = 0, Y = 0\<rparr>],
                   Idxs = [1, 0], Coords = [0, 0, 1, 0]\<rparr>)
   \<and> NewBush [\<lparr>X = 1, Y = 0\<rparr>, \<lparr>X = 0, Y = 0\<rparr>] 1
     = Some (Some \<lparr>NodeSize = 1, Points = [\<lparr>X = 1, Y = 0\<rparr>, \<lparr>X = 0, Y = 0\<rparr>],
                   Idxs = [0, 1], Coords = [1, 0, 0, 0]\<rparr>)"
  by (simp add: NewBush_def buildIndex_def Coordinates_def sort_kd.simps floor_kd_def
      sselect.simps partition_pass_def swapItem_def swapi_def swapf_def elem_def
      ploop.simps scan_up.simps scan_down.simps signed_modulo_int_def)

text \<open>
  Claim C6, amended. \<open>NewBush\<close> neither rejects nor clamps \<open>nodeSize\<close>: the value reaches
  the recursive builder unchanged. With \<open>nodeSize\<close> 0 or -1 the construction returns an
  index whose \<open>NodeSize\<close> is the argument and which satisfies the permutation, pairing and
  k-d order invariants for that node size; with \<open>nodeSize \<le> -2\<close> the recursive builder
  never returns.
\<close>

theorem NewBush_nodeSize_unchecked:
  "(nodeSize = 0 \<or> nodeSize = - 1 \<longrightarrow>
      (\<exists>bush. NewBush points nodeSize = Some (Some bush) \<and> NodeSize bush = nodeSize
         \<and> built points bush))
   \<and> (nodeSize \<le> - 2 \<longrightarrow> NewBush points nodeSize = None)"
  using NewBush_built[of nodeSize points] NewBush_diverges[of nodeSize points] by auto

theorem NewBush_nodeSize_unchecked_witness:
  "((0::int) = 0 \<or> (0::int) = - 1)
   \<and> (\<exists>bush. NewBush [\<lparr>X = 1, Y = 0\<rparr>, \<lparr>X = 0, Y = 0\<rparr>] 0 = Some (Some bush) \<and> NodeSize bush = 0
         \<and> built [\<lparr>X = 1, Y = 0\<rparr>, \<lparr>X = 0, Y = 0\<rparr>] bush)
   \<and> (- 2::int) \<le> - 2
   \<and> NewBush [\<lparr>X = 1, Y = 0\<rparr>, \<lparr>X = 0, Y = 0\<rparr>] (- 2) = None"
  using NewBush_nodeSize_unchecked [of 0 "[\<lparr>X = 1, Y = 0\<rparr>, \<lparr>X = 0, Y = 0\<rparr>]"]
    NewBush_nodeSize_unchecked [of "- 2" "[\<lparr>X = 1, Y = 0\<rparr>, \<lparr>X = 0, Y = 0\<rparr>]"]
  by simp

section \<open>The empty point sequence\<close>

text \<open>
  Claim C9. For \<open>nodeSize \<ge> 1\<close>, \<open>NewBush\<close> on the empty point sequence returns an index
  whose \<open>Idxs\<close> and \<open>Coords\<close> are empty, and on it \<open>Range\<close> (every box) and \<open>Within\<close> (every
  query point and radius) return the empty list, without panic.
\<close>

theorem NewBush_empty:
  assumes "1 \<le> nodeSize"
  shows "NewBush [] nodeSize
           = Some (Some \<lparr>NodeSize = nodeSize, Points = [], Idxs = [], Coords = []\<rparr>)
         \<and> Range_kd \<lparr>NodeSize = nodeSize, Points = [], Idxs = [], Coords = []\<rparr>
             minX minY maxX maxY = Some (Some [])
         \<and> Within \<lparr>NodeSize = nodeSize, Points = [], Idxs = [], Coords = []\<rparr>
             point radius = Some (Some [])"
proof (intro conjI)
  show "NewBush [] nodeSize
           = Some (Some \<lparr>NodeSize = nodeSize, Points = [], Idxs = [], Coords = []\<rparr>)"
    using assms by (simp add: NewBush_def buildIndex_def sort_kd.simps)
  have pop: "pop3 [0, - 1, 0] = Some (0, - 1, 0, [])"
    using pop3_append[of "[]" 0 "- 1" 0] by simp
  show "Range_kd \<lparr>NodeSize = nodeSize, Points = [], Idxs = [], Coords = []\<rparr>
             minX minY maxX maxY = Some (Some [])"
    using assms
    by (simp add: Range_kd_def range_loop.simps[of _ _ _ _ _ "[0, - 1, 0]"] pop
        range_leaf.simps range_loop_empty)
  show "Within \<lparr>NodeSize = nodeSize, Points = [], Idxs = [], Coords = []\<rparr>
             point radius = Some (Some [])"
    using assms
    by (simp add: Within_def Coordinates_def within_loop.simps[of _ _ _ _ _ "[0, - 1, 0]"] pop
        within_leaf.simps within_loop_empty)
qed

theorem NewBush_empty_witness:
  "(1::int) \<le> 64
   \<and> NewBush [] 64 = Some (Some \<lparr>NodeSize = 64, Points = [], Idxs = [], Coords = []\<rparr>)
   \<and> Range_kd \<lparr>NodeSize = 64, Points = [], Idxs = [], Coords = []\<rparr> 0 0 1 1 = Some (Some [])
   \<and> Within \<lparr>NodeSize = 64, Points = [], Idxs = [], Coords = []\<rparr> \<lparr>X = 0, Y = 0\<rparr> 1
       = Some (Some [])"
proof -
  have h: "(1::int) \<le> 64" by simp
  show ?thesis using h NewBush_empty [OF h] by simp
qed

section \<open>The Points field\<close>

lemma range_leaf_same:
  assumes "Idxs b2 = Idxs b1" "Coords b2 = Coords b1"
  shows "range_leaf b2 minX minY maxX maxY i right result
       = range_leaf b1 minX minY maxX maxY i right result"
proof (induction "nat (right + 1 - i)" arbitrary: i result rule: less_induct)
  case less
  have L: "range_leaf b2 minX minY maxX maxY i right result =
     (if i \<le> right then
        (case elem (Coords b2) (2 * i) of
           None \<Rightarrow> None
         | Some x \<Rightarrow>
             (case elem (Coords b2) (2 * i + 1) of
                None \<Rightarrow> None
              | Some y \<Rightarrow>
                  if x \<ge> minX \<and> x \<le> maxX \<and> y \<ge> minY \<and> y \<le> maxY then
                    (case elem (Idxs b2) i of
                       None \<Rightarrow> None
                     | Some idx \<Rightarrow>
                         range_leaf b2 minX minY maxX maxY (i + 1) right (result @ [idx]))
                  else range_leaf b2 minX minY maxX maxY (i + 1) right result))
      else Some result)"
    by (rule range_leaf.simps)
  show ?case
  proof (cases "i \<le> right")
    case True
    then have "nat (right + 1 - (i + 1)) < nat (right + 1 - i)" by simp
    note IH = less.hyps[OF this]
    show ?thesis
      by (subst L, subst range_leaf.simps) (simp add: assms IH cong: option.case_cong if_cong)
  next
    case False
    then show ?thesis by (subst L, subst range_leaf.simps) simp
  qed
qed

lemma within_leaf_same:
  assumes "Idxs b2 = Idxs b1" "Coords b2 = Coords b1"
  shows "within_leaf b2 qx qy r2 i right result = within_leaf b1 qx qy r2 i right result"
proof (induction "nat (right + 1 - i)" arbitrary: i result rule: less_induct)
  case less
  have L: "within_leaf b2 qx qy r2 i right result =
     (if i \<le> right then
        (case elem (Coords b2) (2 * i) of
           None \<Rightarrow> None
         | Some x \<Rightarrow>
             (case elem (Coords b2) (2 * i + 1) of
                None \<Rightarrow> None
              | Some y \<Rightarrow>
                  (let dst = sqrtDist (Finite x) (Finite y) (Finite qx) (Finite qy) in
                   if fle dst r2 then
                     (case elem (Idxs b2) i of
                        None \<Rightarrow> None
                      | Some idx \<Rightarrow> within_leaf b2 qx qy r2 (i + 1) right (result @ [idx]))
                   else within_leaf b2 qx qy r2 (i + 1) right result)))
      else Some result)"
    by (rule within_leaf.simps)
  show ?case
  proof (cases "i \<le> right")
    case True
    then have "nat (right + 1 - (i + 1)) < nat (right + 1 - i)" by simp
    note IH = less.hyps[OF this]
    show ?thesis
      by (subst L, subst within_leaf.simps)
         (simp add: assms IH Let_def cong: option.case_cong if_cong)
  next
    case False
    then show ?thesis by (subst L, subst within_leaf.simps) simp
  qed
qed

lemma range_loop_same_Some:
  assumes "range_loop b1 minX minY maxX maxY stack result = Some y"
  shows "\<forall>b2::KDBush. NodeSize b2 = NodeSize b1 \<and> Idxs b2 = Idxs b1 \<and> Coords b2 = Coords b1 \<longrightarrow>
           range_loop b2 minX minY maxX maxY stack result = Some y"
proof (rule range_loop.raw_induct[OF _ assms, where P = "\<lambda>b1 minX minY maxX maxY stack result y.
         \<forall>b2::KDBush. NodeSize b2 = NodeSize b1 \<and> Idxs b2 = Idxs b1 \<and> Coords b2 = Coords b1 \<longrightarrow>
           range_loop b2 minX minY maxX maxY stack result = Some y"], goal_cases)
  case (1 f b1 minX minY maxX maxY stack result y)
  show ?case
  proof (intro allI impI)
    fix b2 :: KDBush
    assume same: "NodeSize b2 = NodeSize b1 \<and> Idxs b2 = Idxs b1 \<and> Coords b2 = Coords b1"
    have leaf: "range_leaf b2 minX minY maxX maxY l r res = range_leaf b1 minX minY maxX maxY l r res"
      for l r res using same by (intro range_leaf_same) auto
    have IH: "range_loop b2 minX minY maxX maxY st res = Some y"
      if "f b1 minX minY maxX maxY st res = Some y" for st res
      using 1(1)[OF that] same by blast
    show "range_loop b2 minX minY maxX maxY stack result = Some y"
    proof (cases "0 < length stack")
      case False
      then show ?thesis using 1(2) by (subst range_loop.simps) simp
    next
      case True
      show ?thesis
      proof (cases "pop3 stack")
        case None
        then show ?thesis using 1(2) True by (subst range_loop.simps) simp
      next
        case (Some t)
        obtain left right axis stack1 where t: "t = (left, right, axis, stack1)"
          by (cases t) auto
        note p = Some[unfolded t]
        show ?thesis
        proof (cases "right - left \<le> NodeSize b1")
          case leafc: True
          have eq: "(case range_leaf b1 minX minY maxX maxY left right result of
                      None \<Rightarrow> Some None
                    | Some result1 \<Rightarrow> f b1 minX minY maxX maxY stack1 result1) = Some y"
            using 1(2) True p leafc by simp
          have G: "range_loop b2 minX minY maxX maxY stack result
                = (case range_leaf b1 minX minY maxX maxY left right result of
                      None \<Rightarrow> Some None
                    | Some result1 \<Rightarrow> range_loop b2 minX minY maxX maxY stack1 result1)"
            using True p leafc same by (subst range_loop.simps) (simp add: leaf)
          show ?thesis
          proof (cases "range_leaf b1 minX minY maxX maxY left right result")
            case None
            then show ?thesis using eq G by simp
          next
            case (Some res1)
            then show ?thesis using eq G IH by simp
          qed
        next
          case nodec: False
          define m where "m = (left + right) div 2"
          define q where "q = do {
                       x \<leftarrow> elem (Coords b1) (2 * m);
                       y \<leftarrow> elem (Coords b1) (2 * m + 1);
                       result1 \<leftarrow>
                         (if x \<ge> minX \<and> x \<le> maxX \<and> y \<ge> minY \<and> y \<le> maxY
                          then do { idx \<leftarrow> elem (Idxs b1) m; Some (result @ [idx]) }
                          else Some result);
                       Some (x, y, result1)
                     }"
          define stk where "stk = (\<lambda>x y.
                    (let nextAxis = (axis + 1) smod 2;
                         stack2 = (if (axis = 0 \<and> minX \<le> x) \<or> (axis \<noteq> 0 \<and> minY \<le> y)
                                   then stack1 @ [left, m - 1, nextAxis] else stack1);
                         stack3 = (if (axis = 0 \<and> maxX \<ge> x) \<or> (axis \<noteq> 0 \<and> maxY \<ge> y)
                                   then stack2 @ [m + 1, right, nextAxis] else stack2)
                     in stack3))"
          have eq: "(case q of None \<Rightarrow> Some None
                    | Some (x, y, result1) \<Rightarrow> f b1 minX minY maxX maxY (stk x y) result1) = Some y"
            using 1(2) True p nodec
            by (simp add: floor_mid' m_def[symmetric] q_def stk_def Let_def cong: option.case_cong)
          have G: "range_loop b2 minX minY maxX maxY stack result
                = (case q of None \<Rightarrow> Some None
                    | Some (x, y, result1) \<Rightarrow> range_loop b2 minX minY maxX maxY (stk x y) result1)"
            using True p nodec same
            by (subst range_loop.simps)
               (simp add: floor_mid' m_def[symmetric] q_def stk_def Let_def
                  cong: option.case_cong if_cong)
          show ?thesis
          proof (cases q)
            case None
            then show ?thesis using eq G by simp
          next
            case (Some u)
            obtain x y' res1 where u: "u = (x, y', res1)" by (cases u) auto
            show ?thesis using eq G IH Some u by simp
          qed
        qed
      qed
    qed
  qed
qed

lemma range_loop_same:
  fixes b1 b2 :: KDBush
  assumes "NodeSize b2 = NodeSize b1" "Idxs b2 = Idxs b1" "Coords b2 = Coords b1"
  shows "range_loop b2 minX minY maxX maxY stack result
       = range_loop b1 minX minY maxX maxY stack result"
proof (cases "range_loop b1 minX minY maxX maxY stack result")
  case (Some y)
  then show ?thesis using range_loop_same_Some[OF Some] assms by simp
next
  case None
  show ?thesis
  proof (cases "range_loop b2 minX minY maxX maxY stack result")
    case None
    then show ?thesis using \<open>range_loop b1 minX minY maxX maxY stack result = None\<close> by simp
  next
    case (Some y)
    then show ?thesis using range_loop_same_Some[OF Some] assms None by simp
  qed
qed

lemma within_loop_same_Some:
  assumes "within_loop b1 qx qy radius r2 stack result = Some y"
  shows "\<forall>b2::KDBush. NodeSize b2 = NodeSize b1 \<and> Idxs b2 = Idxs b1 \<and> Coords b2 = Coords b1 \<longrightarrow>
           within_loop b2 qx qy radius r2 stack result = Some y"
proof (rule within_loop.raw_induct[OF _ assms, where P = "\<lambda>b1 qx qy radius r2 stack result y.
         \<forall>b2::KDBush. NodeSize b2 = NodeSize b1 \<and> Idxs b2 = Idxs b1 \<and> Coords b2 = Coords b1 \<longrightarrow>
           within_loop b2 qx qy radius r2 stack result = Some y"], goal_cases)
  case (1 f b1 qx qy radius r2 stack result y)
  show ?case
  proof (intro allI impI)
    fix b2 :: KDBush
    assume same: "NodeSize b2 = NodeSize b1 \<and> Idxs b2 = Idxs b1 \<and> Coords b2 = Coords b1"
    have leaf: "within_leaf b2 qx qy r2 l r res = within_leaf b1 qx qy r2 l r res"
      for l r res using same by (intro within_leaf_same) auto
    have IH: "within_loop b2 qx qy radius r2 st res = Some y"
      if "f b1 qx qy radius r2 st res = Some y" for st res
      using 1(1)[OF that] same by blast
    show "within_loop b2 qx qy radius r2 stack result = Some y"
    proof (cases "0 < length stack")
      case False
      then show ?thesis using 1(2) by (subst within_loop.simps) simp
    next
      case True
      show ?thesis
      proof (cases "pop3 stack")
        case None
        then show ?thesis using 1(2) True by (subst within_loop.simps) simp
      next
        case (Some t)
        obtain left right axis stack1 where t: "t = (left, right, axis, stack1)"
          by (cases t) auto
        note p = Some[unfolded t]
        show ?thesis
        proof (cases "right - left \<le> NodeSize b1")
          case leafc: True
          have eq: "(case within_leaf b1 qx qy r2 left right result of
                      None \<Rightarrow> Some None
                    | Some result1 \<Rightarrow> f b1 qx qy radius r2 stack1 result1) = Some y"
            using 1(2) True p leafc by simp
          have G: "within_loop b2 qx qy radius r2 stack result
                = (case within_leaf b1 qx qy r2 left right result of
                      None \<Rightarrow> Some None
                    | Some result1 \<Rightarrow> within_loop b2 qx qy radius r2 stack1 result1)"
            using True p leafc same by (subst within_loop.simps) (simp add: leaf)
          show ?thesis
          proof (cases "within_leaf b1 qx qy r2 left right result")
            case None
            then show ?thesis using eq G by simp
          next
            case (Some res1)
            then show ?thesis using eq G IH by simp
          qed
        next
          case nodec: False
          define m where "m = (left + right) div 2"
          define q where "q = do {
                       x \<leftarrow> elem (Coords b1) (2 * m);
                       y \<leftarrow> elem (Coords b1) (2 * m + 1);
                       result1 \<leftarrow>
                         (if fle (sqrtDist (Finite x) (Finite y) (Finite qx) (Finite qy)) r2
                          then do { idx \<leftarrow> elem (Idxs b1) m; Some (result @ [idx]) }
                          else Some result);
                       Some (x, y, result1)
                     }"
          define stk where "stk = (\<lambda>x y.
                    (let nextAxis = (axis + 1) smod 2;
                         stack2 =
                           (if (axis = 0 \<and> fle (fsub (Finite qx) (Finite radius)) (Finite x))
                               \<or> (axis \<noteq> 0 \<and> fle (fsub (Finite qy) (Finite radius)) (Finite y))
                            then stack1 @ [left, m - 1, nextAxis] else stack1);
                         stack3 =
                           (if (axis = 0 \<and> fle (Finite x) (fadd (Finite qx) (Finite radius)))
                               \<or> (axis \<noteq> 0 \<and> fle (Finite y) (fadd (Finite qy) (Finite radius)))
                            then stack2 @ [m + 1, right, nextAxis] else stack2)
                     in stack3))"
          have eq: "(case q of None \<Rightarrow> Some None
                    | Some (x, y, result1) \<Rightarrow> f b1 qx qy radius r2 (stk x y) result1) = Some y"
            using 1(2) True p nodec
            by (simp add: floor_mid' m_def[symmetric] q_def stk_def Let_def cong: option.case_cong)
          have G: "within_loop b2 qx qy radius r2 stack result
                = (case q of None \<Rightarrow> Some None
                    | Some (x, y, result1) \<Rightarrow> within_loop b2 qx qy radius r2 (stk x y) result1)"
            using True p nodec same
            by (subst within_loop.simps)
               (simp add: floor_mid' m_def[symmetric] q_def stk_def Let_def
                  cong: option.case_cong if_cong)
          show ?thesis
          proof (cases q)
            case None
            then show ?thesis using eq G by simp
          next
            case (Some u)
            obtain x y' res1 where u: "u = (x, y', res1)" by (cases u) auto
            show ?thesis using eq G IH Some u by simp
          qed
        qed
      qed
    qed
  qed
qed

lemma within_loop_same:
  fixes b1 b2 :: KDBush
  assumes "NodeSize b2 = NodeSize b1" "Idxs b2 = Idxs b1" "Coords b2 = Coords b1"
  shows "within_loop b2 qx qy radius r2 stack result
       = within_loop b1 qx qy radius r2 stack result"
proof (cases "within_loop b1 qx qy radius r2 stack result")
  case (Some y)
  then show ?thesis using within_loop_same_Some[OF Some] assms by simp
next
  case None
  show ?thesis
  proof (cases "within_loop b2 qx qy radius r2 stack result")
    case None
    then show ?thesis using \<open>within_loop b1 qx qy radius r2 stack result = None\<close> by simp
  next
    case (Some y)
    then show ?thesis using within_loop_same_Some[OF Some] assms None by simp
  qed
qed

text \<open>
  Claim C8 as stated fails: \<open>buildIndex\<close> stores the caller's point sequence in the
  \<open>Points\<close> field of the index, so the returned index still holds the point it was
  built from.
\<close>

theorem NewBush_retains_points_counterexample:
  "NewBush [\<lparr>X = 1, Y = 2\<rparr>] 1
     = Some (Some \<lparr>NodeSize = 1, Points = [\<lparr>X = 1, Y = 2\<rparr>], Idxs = [0], Coords = [1, 2]\<rparr>)
   \<and> Points \<lparr>NodeSize = 1, Points = [\<lparr>X = 1, Y = 2\<rparr>], Idxs = [0], Coords = [1, 2]\<rparr> \<noteq> []"
  by (simp add: NewBush_def buildIndex_def Coordinates_def sort_kd.simps)

text \<open>
  Claim C8, amended. After \<open>NewBush\<close> returns, the state of the index is the node size, the
  original-position mapping, the extracted coordinates and the \<open>Points\<close> field, which
  holds the caller's point sequence as supplied. No query reads that field: \<open>Range\<close> and
  \<open>Within\<close> give the same result whatever \<open>Points\<close> holds.
\<close>

theorem NewBush_keeps_points_field:
  "(NewBush points nodeSize = Some (Some bush) \<longrightarrow>
      Points bush = points \<and> NodeSize bush = nodeSize)
   \<and> Range_kd (bush\<lparr>Points := ps\<rparr>) minX minY maxX maxY = Range_kd bush minX minY maxX maxY
   \<and> Within (bush\<lparr>Points := ps\<rparr>) point radius = Within bush point radius"
proof (intro conjI impI)
  assume "NewBush points nodeSize = Some (Some bush)"
  then show "Points bush = points" "NodeSize bush = nodeSize"
    by (auto simp: NewBush_def buildIndex_def bind_eq_Some_conv split: option.splits)
next
  show "Range_kd (bush\<lparr>Points := ps\<rparr>) minX minY maxX maxY = Range_kd bush minX minY maxX maxY"
    unfolding Range_kd_def by (simp add: range_loop_same[of "bush\<lparr>Points := ps\<rparr>" bush])
next
  show "Within (bush\<lparr>Points := ps\<rparr>) point radius = Within bush point radius"
    unfolding Within_def by (simp add: within_loop_same[of "bush\<lparr>Points := ps\<rparr>" bush])
qed

theorem NewBush_keeps_points_field_witness:
  "NewBush [\<lparr>X = 1, Y = 2\<rparr>] 1
     = Some (Some \<lparr>NodeSize = 1, Points = [\<lparr>X = 1, Y = 2\<rparr>], Idxs = [0], Coords = [1, 2]\<rparr>)
   \<and> Points \<lparr>NodeSize = 1, Points = [\<lparr>X = 1, Y = 2\<rparr>], Idxs = [0], Coords = [1, 2]\<rparr>
       = [\<lparr>X = 1, Y = 2\<rparr>]
   \<and> Range_kd (\<lparr>NodeSize = 1, Points = [\<lparr>X = 1, Y = 2\<rparr>], Idxs = [0], Coords = [1, 2]\<rparr>
                \<lparr>Points := []\<rparr>) 0 0 3 3
       = Range_kd \<lparr>NodeSize = 1, Points = [\<lparr>X = 1, Y = 2\<rparr>], Idxs = [0], Coords = [1, 2]\<rparr> 0 0 3 3
   \<and> Within (\<lparr>NodeSize = 1, Points = [\<lparr>X = 1, Y = 2\<rparr>], Idxs = [0], Coords = [1, 2]\<rparr>
                \<lparr>Points := []\<rparr>) \<lparr>X = 0, Y = 0\<rparr> 3
       = Within \<lparr>NodeSize = 1, Points = [\<lparr>X = 1, Y = 2\<rparr>], Idxs = [0], Coords = [1, 2]\<rparr>
           \<lparr>X = 0, Y = 0\<rparr> 3"
proof -
  have h: "NewBush [\<lparr>X = 1, Y = 2\<rparr>] 1
     = Some (Some \<lparr>NodeSize = 1, Points = [\<lparr>X = 1, Y = 2\<rparr>], Idxs = [0], Coords = [1, 2]\<rparr>)"
    by (simp add: NewBush_def buildIndex_def Coordinates_def sort_kd.simps)
  show ?thesis
    using h NewBush_keeps_points_field
      [of "[\<lparr>X = 1, Y = 2\<rparr>]" 1
          "\<lparr>NodeSize = 1, Points = [\<lparr>X = 1, Y = 2\<rparr>], Idxs = [0], Coords = [1, 2]\<rparr>"
          "[]" 0 0 3 3 "\<lparr>X = 0, Y = 0\<rparr>" 3]
    by simp
qed

section \<open>The examples of the specification\<close>

lemma example_build:
  "NewBush [\<lparr>X = 0, Y = 0\<rparr>, \<lparr>X = 1, Y = 1\<rparr>, \<lparr>X = 2, Y = 2\<rparr>, \<lparr>X = 3, Y = 3\<rparr>, \<lparr>X = 4, Y = 4\<rparr>] 2
     = Some (Some \<lparr>NodeSize = 2,
          Points = [\<lparr>X = 0, Y = 0\<rparr>, \<lparr>X = 1, Y = 1\<rparr>, \<lparr>X = 2, Y = 2\<rparr>, \<lparr>X = 3, Y = 3\<rparr>, \<lparr>X = 4, Y = 4\<rparr>],
          Idxs = [0, 1, 2, 3, 4], Coords = [0, 0, 1, 1, 2, 2, 3, 3, 4, 4]\<rparr>)"
  by (simp add: NewBush_def buildIndex_def Coordinates_def sort_kd.simps floor_kd_def
      sselect.simps partition_pass_def swapItem_def swapi_def swapf_def elem_def
      ploop.simps scan_up.simps scan_down.simps signed_modulo_int_def)

lemma example_range:
  "Range_kd \<lparr>NodeSize = 2, Points = ps, Idxs = [0, 1, 2, 3, 4],
      Coords = [0, 0, 1, 1, 2, 2, 3, 3, 4, 4]\<rparr> 1 1 3 3 = Some (Some [2, 3, 1])"
  by (simp add: Range_kd_def range_loop.simps range_leaf.simps pop3_def pop_def elem_def
      floor_kd_def signed_modulo_int_def)

lemma round64_example_halves:
  "round64 (9 / 4) = Finite (9 / 4)" "round64 (1 / 2) = Finite (1 / 2)"
  "round64 (7 / 2) = Finite (7 / 2)"
  using round64_dyadic[of 9 "- 2"] round64_dyadic[of 1 "- 1"] round64_dyadic[of 7 "- 1"]
  by (simp_all add: powr_neg_numeral)

lemma example_within:
  "Within \<lparr>NodeSize = 2, Points = ps, Idxs = [0, 1, 2, 3, 4],
      Coords = [0, 0, 1, 1, 2, 2, 3, 3, 4, 4]\<rparr> \<lparr>X = 2, Y = 2\<rparr> 1.5 = Some (Some [2, 3, 1])"
  "Within \<lparr>NodeSize = 2, Points = ps, Idxs = [0, 1, 2, 3, 4],
      Coords = [0, 0, 1, 1, 2, 2, 3, 3, 4, 4]\<rparr> \<lparr>X = 2, Y = 2\<rparr> 0 = Some (Some [2])"
  by (simp_all add: Within_def Coordinates_def within_loop.simps within_leaf.simps pop3_def
      pop_def elem_def floor_kd_def sqrtDist_def signed_modulo_int_def
      round64_numeral round64_neg_numeral round64_example_halves)

end
